theory Spec2Isabelle
  imports Complex_Main
begin

section \<open>GMRES with Givens rotations and a restart wrapper\<close>

text \<open>
  The development embeds \<^verbatim>\<open>examples/gmres_demo.py\<close>: the functions
  \<^verbatim>\<open>givens_rotation\<close>, \<^verbatim>\<open>gmres\<close> and \<^verbatim>\<open>gmres_restart\<close>.

  Numbers. The program computes in IEEE double precision. The embedding computes in the
  real numbers: every property below is a property of the program in exact arithmetic, and
  says nothing about rounding.

  Arrays. A one-dimensional numpy array is a \<open>real list\<close>, a two-dimensional one is the
  list of its rows. Arrays that the program updates in place are passed through the
  functions and returned updated.

  Errors. An exception of the source is a value of the type \<open>error\<close>; a function that can
  raise returns \<open>error + 'a\<close> with \<open>Inl\<close> for the exception.
\<close>

subsection \<open>Vectors and matrices\<close>

type_synonym vec = "real list"

type_synonym matrix = "real list list"

definition zeros :: "nat \<Rightarrow> vec" where
  \<comment> \<open>\<^verbatim>\<open>np.zeros(n)\<close>\<close>
  "zeros n = replicate n 0"

definition zeros2 :: "nat \<Rightarrow> nat \<Rightarrow> matrix" where
  \<comment> \<open>\<^verbatim>\<open>np.zeros((r, c))\<close>\<close>
  "zeros2 r c = replicate r (zeros c)"

definition dot :: "vec \<Rightarrow> vec \<Rightarrow> real" where
  \<comment> \<open>\<^verbatim>\<open>np.dot(u, v)\<close> on two vectors\<close>
  "dot u v = sum_list (map2 (*) u v)"

definition norm2 :: "vec \<Rightarrow> real" where
  \<comment> \<open>\<^verbatim>\<open>np.linalg.norm(v)\<close>: the 2-norm\<close>
  "norm2 v = sqrt (dot v v)"

definition vadd :: "vec \<Rightarrow> vec \<Rightarrow> vec" where
  "vadd u v = map2 (+) u v"

definition vsub :: "vec \<Rightarrow> vec \<Rightarrow> vec" where
  "vsub u v = map2 (-) u v"

definition scal :: "real \<Rightarrow> vec \<Rightarrow> vec" where
  \<comment> \<open>\<^verbatim>\<open>c * v\<close>\<close>
  "scal c v = map ((*) c) v"

definition vdiv :: "vec \<Rightarrow> real \<Rightarrow> vec" where
  \<comment> \<open>\<^verbatim>\<open>v / c\<close>\<close>
  "vdiv v c = map (\<lambda>a. a / c) v"

definition mget :: "matrix \<Rightarrow> nat \<Rightarrow> nat \<Rightarrow> real" where
  \<comment> \<open>\<^verbatim>\<open>M[i, j]\<close>\<close>
  "mget M i j = M ! i ! j"

definition mput :: "matrix \<Rightarrow> nat \<Rightarrow> nat \<Rightarrow> real \<Rightarrow> matrix" where
  \<comment> \<open>\<^verbatim>\<open>M[i, j] = a\<close>\<close>
  "mput M i j a = M[i := (M ! i)[j := a]]"

definition col :: "matrix \<Rightarrow> nat \<Rightarrow> vec" where
  \<comment> \<open>\<^verbatim>\<open>M[:, j]\<close>\<close>
  "col M j = map (\<lambda>row. row ! j) M"

definition set_col :: "matrix \<Rightarrow> nat \<Rightarrow> vec \<Rightarrow> matrix" where
  \<comment> \<open>\<^verbatim>\<open>M[:, j] = v\<close>\<close>
  "set_col M j v = map2 (\<lambda>row a. row[j := a]) M v"

definition cols_upto :: "matrix \<Rightarrow> nat \<Rightarrow> matrix" where
  \<comment> \<open>\<^verbatim>\<open>M[:, :k]\<close>\<close>
  "cols_upto M k = map (take k) M"

definition block :: "matrix \<Rightarrow> nat \<Rightarrow> nat \<Rightarrow> matrix" where
  \<comment> \<open>\<^verbatim>\<open>M[:r, :c]\<close>\<close>
  "block M r c = map (take c) (take r M)"

definition matvec :: "matrix \<Rightarrow> vec \<Rightarrow> vec" where
  \<comment> \<open>\<^verbatim>\<open>M.dot(v)\<close> for a matrix and a vector\<close>
  "matvec M v = map (\<lambda>row. dot row v) M"

subsection \<open>The Givens rotation helper\<close>

definition givens_rotation :: "real \<Rightarrow> real \<Rightarrow> real \<times> real" where
  "givens_rotation a b =
     (if b = 0 then (1, 0)
      else if \<bar>b\<bar> > \<bar>a\<bar> then
        (let tau = - a / b;
             s = 1 / sqrt (1 + tau * tau);
             c = s * tau
         in (c, s))
      else
        (let tau = - b / a;
             c = 1 / sqrt (1 + tau * tau);
             s = c * tau
         in (c, s)))"

subsection \<open>Exceptions\<close>

datatype error =
    ShapeError    \<comment> \<open>\<^verbatim>\<open>ValueError\<close> of a shape mismatch in an array operation\<close>
  | ValueError    \<comment> \<open>\<^verbatim>\<open>ValueError\<close> of \<^verbatim>\<open>np.zeros\<close> on a negative dimension\<close>
  | LinAlgError   \<comment> \<open>\<^verbatim>\<open>np.linalg.LinAlgError\<close>: singular matrix\<close>
  | IndexError    \<comment> \<open>\<^verbatim>\<open>IndexError\<close> of \<^verbatim>\<open>xs[-1]\<close> on an empty list\<close>

subsection \<open>The operator and the two library solvers\<close>

text \<open>
  The operator \<^verbatim>\<open>A\<close> is used through \<^verbatim>\<open>Aop.matvec\<close> only; it is a function from
  vectors to vectors here, and \<open>matvec M\<close> is the operator of a dense matrix \<open>M\<close>.
  \<^verbatim>\<open>Aop.matvec(x)\<close> raises when the length of \<^verbatim>\<open>x\<close> is not the dimension of the
  operator, and the subtraction or dot product that consumes its result raises when that
  result has not the length of \<^verbatim>\<open>b\<close>. Both are the one check of \<open>apply_op\<close>, made
  where the operator is applied. (The broadcasting that numpy does for arrays of length one
  is not modelled: the operator is taken to be square, of the dimension of \<^verbatim>\<open>b\<close>.)
\<close>

definition apply_op :: "(vec \<Rightarrow> vec) \<Rightarrow> nat \<Rightarrow> vec \<Rightarrow> error + vec" where
  "apply_op A n x = (if length x = n \<and> length (A x) = n then Inr (A x) else Inl ShapeError)"

text \<open>
  \<^verbatim>\<open>np.linalg.solve(R, g)\<close> returns the solution of a square system and raises
  \<^verbatim>\<open>LinAlgError\<close> when the matrix is singular. \<^verbatim>\<open>gmres\<close> calls it on an upper
  triangular matrix (lemma \<open>gmres_solve_upper\<close> below), where the solution is the one of back
  substitution and the matrix is singular exactly when an entry of its diagonal is zero.
  \<open>solve_from i rows gs\<close> solves the rows \<open>i, i + 1, \<dots>\<close> of the system.
\<close>

fun solve_from :: "nat \<Rightarrow> matrix \<Rightarrow> vec \<Rightarrow> error + vec" where
  "solve_from i [] [] = Inr []"
| "solve_from i (row # rows) (gi # gs) =
     (case solve_from (Suc i) rows gs of
        Inl e \<Rightarrow> Inl e
      | Inr ys \<Rightarrow>
          if row ! i = 0 then Inl LinAlgError
          else Inr ((gi - dot (drop (Suc i) row) ys) / (row ! i) # ys))"
| "solve_from i _ _ = Inl ShapeError"

definition linalg_solve :: "matrix \<Rightarrow> vec \<Rightarrow> error + vec" where
  "linalg_solve R gs = solve_from 0 R gs"

text \<open>
  \<^verbatim>\<open>np.linalg.lstsq(M, r, rcond=None)[0]\<close> is the least-squares solution of minimum
  norm. It is a parameter \<open>lstsq\<close> of \<open>gmres\<close>; what the library promises of it is the
  predicate \<open>min_norm_lstsq\<close>. \<open>lstsq_regular\<close> is the instance used to run \<open>gmres\<close>
  on concrete inputs: it is the least-squares solver on the upper triangular systems whose
  diagonal has no zero, where the least-squares solution is the solution of the system.
\<close>

definition lstsq_residual :: "matrix \<Rightarrow> vec \<Rightarrow> vec \<Rightarrow> real" where
  "lstsq_residual M r y = norm2 (vsub (matvec M y) r)"

definition minimises :: "matrix \<Rightarrow> vec \<Rightarrow> nat \<Rightarrow> vec \<Rightarrow> bool" where
  "minimises M r k y \<longleftrightarrow>
     length y = k \<and> (\<forall>z. length z = k \<longrightarrow> lstsq_residual M r y \<le> lstsq_residual M r z)"

definition min_norm_lstsq :: "matrix \<Rightarrow> vec \<Rightarrow> nat \<Rightarrow> vec \<Rightarrow> bool" where
  \<comment> \<open>\<open>y\<close>, with \<open>k\<close> entries, is the least-squares solution of minimum norm of \<open>M y = r\<close>\<close>
  "min_norm_lstsq M r k y \<longleftrightarrow>
     minimises M r k y \<and> (\<forall>z. minimises M r k z \<longrightarrow> norm2 y \<le> norm2 z)"

definition lstsq_regular :: "matrix \<Rightarrow> vec \<Rightarrow> vec" where
  "lstsq_regular M r = (case linalg_solve M r of Inr y \<Rightarrow> y | Inl e \<Rightarrow> zeros (length r))"

subsection \<open>The GMRES core\<close>

record gmres_state =
  V :: matrix
  H :: matrix
  cs :: vec
  sn :: vec
  g :: vec
  resvec :: "real list"

text \<open>Modified Gram-Schmidt: the loop over \<^verbatim>\<open>i in range(j + 1)\<close>.\<close>

definition mgs_body :: "matrix \<Rightarrow> nat \<Rightarrow> nat \<Rightarrow> matrix \<times> vec \<Rightarrow> matrix \<times> vec" where
  "mgs_body Vm j i = (\<lambda>(Hm, w).
     let Hm' = mput Hm i j (dot (col Vm i) w)
     in (Hm', vsub w (scal (mget Hm' i j) (col Vm i))))"

definition mgs :: "matrix \<Rightarrow> nat \<Rightarrow> matrix \<times> vec \<Rightarrow> matrix \<times> vec" where
  "mgs Vm j = fold (mgs_body Vm j) [0..<j + 1]"

text \<open>
  The Arnoldi step: \<^verbatim>\<open>w = A v_j\<close>, Gram-Schmidt, \<^verbatim>\<open>H[j + 1, j] = norm(w)\<close>, and the
  next basis column when that norm is not zero.
\<close>

definition arnoldi :: "(vec \<Rightarrow> vec) \<Rightarrow> nat \<Rightarrow> nat \<Rightarrow> gmres_state \<Rightarrow> error + gmres_state" where
  "arnoldi A n j st =
     (case apply_op A n (col (V st) j) of
        Inl e \<Rightarrow> Inl e
      | Inr w0 \<Rightarrow>
          (let (H1, w) = mgs (V st) j (H st, w0);
               H2 = mput H1 (j + 1) j (norm2 w);
               V2 = (if mget H2 (j + 1) j \<noteq> 0
                     then set_col (V st) (j + 1) (vdiv w (mget H2 (j + 1) j))
                     else V st)
           in Inr (st\<lparr>V := V2, H := H2\<rparr>)))"

text \<open>The previous rotations on the new column: the loop over \<^verbatim>\<open>i in range(j)\<close>.\<close>

definition rot_body :: "vec \<Rightarrow> vec \<Rightarrow> nat \<Rightarrow> nat \<Rightarrow> matrix \<Rightarrow> matrix" where
  "rot_body c s j i Hm =
     (let temp = c ! i * mget Hm i j + s ! i * mget Hm (i + 1) j;
          H1 = mput Hm (i + 1) j (- (s ! i) * mget Hm i j + c ! i * mget Hm (i + 1) j)
      in mput H1 i j temp)"

definition apply_rotations :: "vec \<Rightarrow> vec \<Rightarrow> nat \<Rightarrow> matrix \<Rightarrow> matrix" where
  "apply_rotations c s j = fold (rot_body c s j) [0..<j]"

text \<open>
  The new rotation, applied to the column and to \<^verbatim>\<open>g\<close>, and the residual norm appended
  to \<^verbatim>\<open>resvec\<close>.
\<close>

definition givens_update :: "nat \<Rightarrow> gmres_state \<Rightarrow> gmres_state" where
  "givens_update j st =
     (let H1 = apply_rotations (cs st) (sn st) j (H st);
          (c, s) = givens_rotation (mget H1 j j) (mget H1 (j + 1) j);
          cs1 = (cs st)[j := c];
          sn1 = (sn st)[j := s];
          H2 = mput H1 j j (c * mget H1 j j + s * mget H1 (j + 1) j);
          H3 = mput H2 (j + 1) j 0;
          temp = c * g st ! j + s * g st ! (j + 1);
          g1 = (g st)[j + 1 := - s * g st ! j + c * g st ! (j + 1)];
          g2 = g1[j := temp];
          res_norm = \<bar>g2 ! (j + 1)\<bar>
      in st\<lparr>H := H3, cs := cs1, sn := sn1, g := g2, resvec := resvec st @ [res_norm]\<rparr>)"

datatype outcome =
    Continue gmres_state          \<comment> \<open>the loop goes on, or has run out, with this state\<close>
  | Return "vec \<times> real list"      \<comment> \<open>\<^verbatim>\<open>return x, resvec\<close> inside the loop\<close>
  | Raise error

text \<open>One pass through the body of the loop over \<^verbatim>\<open>j\<close>.\<close>

definition gmres_step :: "(vec \<Rightarrow> vec) \<Rightarrow> nat \<Rightarrow> real \<Rightarrow> vec \<Rightarrow> nat \<Rightarrow> gmres_state \<Rightarrow> outcome" where
  "gmres_step A n tol x j st =
     (case arnoldi A n j st of
        Inl e \<Rightarrow> Raise e
      | Inr st1 \<Rightarrow>
          (let st2 = givens_update j st1
           in if \<bar>g st2 ! (j + 1)\<bar> \<le> tol then
                (case linalg_solve (block (H st2) (j + 1) (j + 1)) (take (j + 1) (g st2)) of
                   Inl e \<Rightarrow> Raise e
                 | Inr y \<Rightarrow> Return (vadd x (matvec (cols_upto (V st2) (j + 1)) y), resvec st2))
              else Continue st2))"

fun gmres_loop :: "(vec \<Rightarrow> vec) \<Rightarrow> nat \<Rightarrow> real \<Rightarrow> vec \<Rightarrow> nat list \<Rightarrow> gmres_state \<Rightarrow> outcome" where
  "gmres_loop A n tol x [] st = Continue st"
| "gmres_loop A n tol x (j # js) st =
     (case gmres_step A n tol x j st of
        Continue st' \<Rightarrow> gmres_loop A n tol x js st'
      | Return r \<Rightarrow> Return r
      | Raise e \<Rightarrow> Raise e)"

definition init_state :: "nat \<Rightarrow> nat \<Rightarrow> vec \<Rightarrow> real \<Rightarrow> gmres_state" where
  \<comment> \<open>the arrays as allocated and filled before the loop\<close>
  "init_state n m r0 beta =
     \<lparr>V = set_col (zeros2 n (m + 1)) 0 (vdiv r0 beta),
      H = zeros2 (m + 1) m,
      cs = zeros m,
      sn = zeros m,
      g = (zeros (m + 1))[0 := beta],
      resvec = [beta]\<rparr>"

definition gmres ::
  "(matrix \<Rightarrow> vec \<Rightarrow> vec) \<Rightarrow> (vec \<Rightarrow> vec) \<Rightarrow> vec \<Rightarrow> vec option \<Rightarrow> real \<Rightarrow> int option
     \<Rightarrow> error + vec \<times> real list" where
  "gmres lstsq A b x0 tol maxiter =
     (let n = length b;
          x = (case x0 of None \<Rightarrow> zeros n | Some v \<Rightarrow> v);
          maxiter = (case maxiter of None \<Rightarrow> int n | Some k \<Rightarrow> k)
      in case apply_op A n x of
           Inl e \<Rightarrow> Inl e
         | Inr Ax \<Rightarrow>
             (let r0 = vsub b Ax;
                  beta = norm2 r0
              in if beta = 0 then Inr (x, [0])
                 else if maxiter < 0 then Inl ValueError
                 else
                   (let m = nat maxiter
                    in case gmres_loop A n tol x [0..<m] (init_state n m r0 beta) of
                         Raise e \<Rightarrow> Inl e
                       | Return r \<Rightarrow> Inr r
                       | Continue st \<Rightarrow>
                           (let y = lstsq (block (H st) m m) (take m (g st))
                            in Inr (vadd x (matvec (cols_upto (V st) m) y), resvec st)))))"

subsection \<open>Restarted GMRES\<close>

fun restart_loop ::
  "(matrix \<Rightarrow> vec \<Rightarrow> vec) \<Rightarrow> (vec \<Rightarrow> vec) \<Rightarrow> vec \<Rightarrow> int \<Rightarrow> real \<Rightarrow> nat list \<Rightarrow> vec \<Rightarrow> real list
     \<Rightarrow> error + vec \<times> real list" where
  "restart_loop lstsq A b m tol [] x residuals = Inr (x, residuals)"
| "restart_loop lstsq A b m tol (cycle # cycles) x residuals =
     (case gmres lstsq A b (Some x) tol (Some m) of
        Inl e \<Rightarrow> Inl e
      | Inr (x', rvec) \<Rightarrow>
          (let residuals' = (if cycle = 0 then residuals @ rvec else residuals @ drop 1 rvec)
           in if residuals' = [] then Inl IndexError
              else if last residuals' \<le> tol then Inr (x', residuals')
              else restart_loop lstsq A b m tol cycles x' residuals'))"

definition gmres_restart ::
  "(matrix \<Rightarrow> vec \<Rightarrow> vec) \<Rightarrow> (vec \<Rightarrow> vec) \<Rightarrow> vec \<Rightarrow> vec option \<Rightarrow> int \<Rightarrow> real \<Rightarrow> int
     \<Rightarrow> error + vec \<times> real list" where
  "gmres_restart lstsq A b x0 m tol maxcycles =
     (let x = (case x0 of None \<Rightarrow> zeros (length b) | Some v \<Rightarrow> v)
      in restart_loop lstsq A b m tol [0..<nat maxcycles] x [])"

subsection \<open>The arrays of the caller\<close>

text \<open>
  A numpy array is a mutable object, and \<^verbatim>\<open>b\<close>, \<^verbatim>\<open>x0\<close> and the returned
  \<^verbatim>\<open>x\<close> are references to such objects. For the arrays that the caller can reach,
  a store maps references to contents. \<open>alloc\<close> is every expression of the source that
  makes a new array (\<^verbatim>\<open>np.zeros\<close>, \<^verbatim>\<open>x0.copy()\<close>, \<^verbatim>\<open>x + V.dot(y)\<close>).
  The source assigns into \<^verbatim>\<open>V\<close>, \<^verbatim>\<open>H\<close>, \<^verbatim>\<open>cs\<close>, \<^verbatim>\<open>sn\<close>, \<^verbatim>\<open>g\<close>
  and appends to \<^verbatim>\<open>resvec\<close> and \<^verbatim>\<open>residuals\<close> only; these are made inside the
  call and are the values of the functions above. \<open>gmres_ref\<close> and
  \<open>gmres_restart_ref\<close> are \<^verbatim>\<open>gmres\<close> and \<^verbatim>\<open>gmres_restart\<close> on references.
\<close>

record store =
  cells :: "nat \<Rightarrow> vec option"
  next_ref :: nat

definition alloc :: "vec \<Rightarrow> store \<Rightarrow> nat \<times> store" where
  "alloc v h = (next_ref h, h\<lparr>cells := (cells h)(next_ref h \<mapsto> v), next_ref := Suc (next_ref h)\<rparr>)"

definition rd :: "store \<Rightarrow> nat \<Rightarrow> vec" where
  "rd h r = (case cells h r of Some v \<Rightarrow> v | None \<Rightarrow> [])"

definition gmres_ref ::
  "(matrix \<Rightarrow> vec \<Rightarrow> vec) \<Rightarrow> (vec \<Rightarrow> vec) \<Rightarrow> nat \<Rightarrow> nat option \<Rightarrow> real \<Rightarrow> int option \<Rightarrow> store
     \<Rightarrow> (error + nat \<times> real list) \<times> store" where
  "gmres_ref lstsq A b_ref x0_ref tol maxiter h =
     (let n = length (rd h b_ref);
          (x_ref, h1) = (case x0_ref of None \<Rightarrow> alloc (zeros n) h | Some r \<Rightarrow> alloc (rd h r) h)
      in case apply_op A n (rd h1 x_ref) of
           Inl e \<Rightarrow> (Inl e, h1)
         | Inr Ax \<Rightarrow>
             if norm2 (vsub (rd h1 b_ref) Ax) = 0 then (Inr (x_ref, [0]), h1)
             else
               (case gmres lstsq A (rd h1 b_ref) (Some (rd h1 x_ref)) tol maxiter of
                  Inl e \<Rightarrow> (Inl e, h1)
                | Inr (x', rvec) \<Rightarrow> (let (r, h2) = alloc x' h1 in (Inr (r, rvec), h2))))"

fun restart_loop_ref ::
  "(matrix \<Rightarrow> vec \<Rightarrow> vec) \<Rightarrow> (vec \<Rightarrow> vec) \<Rightarrow> nat \<Rightarrow> int \<Rightarrow> real \<Rightarrow> nat list \<Rightarrow> nat \<Rightarrow> real list
     \<Rightarrow> store \<Rightarrow> (error + nat \<times> real list) \<times> store" where
  "restart_loop_ref lstsq A b_ref m tol [] x_ref residuals h = (Inr (x_ref, residuals), h)"
| "restart_loop_ref lstsq A b_ref m tol (cycle # cycles) x_ref residuals h =
     (case gmres_ref lstsq A b_ref (Some x_ref) tol (Some m) h of
        (Inl e, h1) \<Rightarrow> (Inl e, h1)
      | (Inr (x_ref', rvec), h1) \<Rightarrow>
          (let residuals' = (if cycle = 0 then residuals @ rvec else residuals @ drop 1 rvec)
           in if residuals' = [] then (Inl IndexError, h1)
              else if last residuals' \<le> tol then (Inr (x_ref', residuals'), h1)
              else restart_loop_ref lstsq A b_ref m tol cycles x_ref' residuals' h1))"

definition gmres_restart_ref ::
  "(matrix \<Rightarrow> vec \<Rightarrow> vec) \<Rightarrow> (vec \<Rightarrow> vec) \<Rightarrow> nat \<Rightarrow> nat option \<Rightarrow> int \<Rightarrow> real \<Rightarrow> int \<Rightarrow> store
     \<Rightarrow> (error + nat \<times> real list) \<times> store" where
  "gmres_restart_ref lstsq A b_ref x0_ref m tol maxcycles h =
     (let (x_ref, h1) = (case x0_ref of
                            None \<Rightarrow> alloc (zeros (length (rd h b_ref))) h
                          | Some r \<Rightarrow> alloc (rd h r) h)
      in restart_loop_ref lstsq A b_ref m tol [0..<nat maxcycles] x_ref [] h1)"

definition frame :: "store \<Rightarrow> store \<Rightarrow> bool" where
  \<comment> \<open>the arrays that exist in \<open>h\<close> exist in \<open>h'\<close> with the same contents\<close>
  "frame h h' \<longleftrightarrow> next_ref h \<le> next_ref h' \<and> (\<forall>q. q < next_ref h \<longrightarrow> cells h' q = cells h q)"

definition read_result :: "store \<Rightarrow> error + nat \<times> real list \<Rightarrow> error + vec \<times> real list" where
  \<comment> \<open>the result of a call, with the returned array read from the store\<close>
  "read_result h res = (case res of Inl e \<Rightarrow> Inl e | Inr (r, hist) \<Rightarrow> Inr (rd h r, hist))"

subsection \<open>Notions of the specification\<close>

definition residual_norm :: "(vec \<Rightarrow> vec) \<Rightarrow> vec \<Rightarrow> vec \<Rightarrow> real" where
  \<comment> \<open>the 2-norm of the true residual \<open>b - A x\<close>\<close>
  "residual_norm A b x = norm2 (vsub b (A x))"

text \<open>
  The history of a restarted run, in the words of the specification: the cycles that were
  executed are chained, each starting from the solution of the one before; the whole history
  of cycle 0 is followed by the histories of the later cycles without their first entries.
\<close>

fun chained :: "(vec \<Rightarrow> error + vec \<times> real list) \<Rightarrow> vec \<Rightarrow> (vec \<times> real list) list \<Rightarrow> bool" where
  "chained inner x [] = True"
| "chained inner x (r # rs) = (inner x = Inr r \<and> chained inner (fst r) rs)"

definition joined :: "(vec \<times> real list) list \<Rightarrow> real list" where
  "joined rs = (case rs of [] \<Rightarrow> [] | r # rest \<Rightarrow> snd r @ concat (map (\<lambda>q. drop 1 (snd q)) rest))"

definition linear_op :: "nat \<Rightarrow> (vec \<Rightarrow> vec) \<Rightarrow> bool" where
  \<comment> \<open>the operator is linear on the vectors of length \<open>n\<close>\<close>
  "linear_op n A \<longleftrightarrow>
     (\<forall>u v. length u = n \<and> length v = n \<longrightarrow> A (vadd u v) = vadd (A u) (A v)) \<and>
     (\<forall>c v. length v = n \<longrightarrow> A (scal c v) = scal c (A v))"

subsection \<open>Runs of the solver\<close>

definition start_guess :: "vec \<Rightarrow> vec option \<Rightarrow> vec" where
  \<comment> \<open>the array \<^verbatim>\<open>x\<close> that \<^verbatim>\<open>gmres\<close> starts from\<close>
  "start_guess b x0 = (case x0 of None \<Rightarrow> zeros (length b) | Some v \<Rightarrow> v)"

definition step_bound :: "vec \<Rightarrow> int option \<Rightarrow> int" where
  \<comment> \<open>\<^verbatim>\<open>maxiter\<close>, with its default\<close>
  "step_bound b maxiter = (case maxiter of None \<Rightarrow> int (length b) | Some k \<Rightarrow> k)"

definition reaches ::
  "(vec \<Rightarrow> vec) \<Rightarrow> vec \<Rightarrow> vec option \<Rightarrow> real \<Rightarrow> int option \<Rightarrow> nat \<Rightarrow> gmres_state \<Rightarrow> bool" where
  \<comment> \<open>the run of \<^verbatim>\<open>gmres\<close> on these arguments has gone through the steps before \<open>j\<close>
      without leaving the loop, and the arrays are \<open>st\<close>\<close>
  "reaches A b x0 tol maxiter j st =
     (case apply_op A (length b) (start_guess b x0) of
        Inl e \<Rightarrow> False
      | Inr Ax \<Rightarrow>
          norm2 (vsub b Ax) \<noteq> 0 \<and> int j \<le> step_bound b maxiter \<and>
          gmres_loop A (length b) tol (start_guess b x0) [0..<j]
            (init_state (length b) (nat (step_bound b maxiter)) (vsub b Ax) (norm2 (vsub b Ax)))
          = Continue st)"

subsection \<open>The invariant of the loop\<close>

definition shape :: "nat \<Rightarrow> nat \<Rightarrow> matrix \<Rightarrow> bool" where
  "shape r c M \<longleftrightarrow> length M = r \<and> (\<forall>row \<in> set M. length row = c)"

definition loop_inv :: "nat \<Rightarrow> nat \<Rightarrow> nat \<Rightarrow> gmres_state \<Rightarrow> bool" where
  \<comment> \<open>what holds of the arrays when step \<open>j\<close> starts, for \<open>n\<close> unknowns and \<open>m\<close> steps\<close>
  "loop_inv n m j st \<longleftrightarrow>
     shape n (m + 1) (V st) \<and> shape (m + 1) m (H st) \<and>
     length (cs st) = m \<and> length (sn st) = m \<and> length (g st) = m + 1 \<and>
     (\<forall>i k. i \<le> m \<and> k < m \<and> (k < i \<or> j \<le> k) \<longrightarrow> mget (H st) i k = 0) \<and>
     (\<forall>k. j < k \<and> k \<le> m \<longrightarrow> g st ! k = 0) \<and>
     (\<forall>k. j < k \<and> k \<le> m \<longrightarrow> col (V st) k = zeros n)"

section \<open>Running the program on concrete inputs\<close>

lemmas vec_defs = zeros_def zeros2_def dot_def norm2_def vadd_def vsub_def scal_def vdiv_def
  mget_def mput_def col_def set_col_def cols_upto_def block_def matvec_def

lemmas run_defs = gmres_def init_state_def gmres_step_def arnoldi_def apply_op_def
  mgs_def mgs_body_def givens_update_def apply_rotations_def rot_body_def linalg_solve_def
  givens_rotation_def lstsq_regular_def residual_norm_def

lemmas reach_defs = reaches_def start_guess_def step_bound_def

lemma sqrt_16: "sqrt 16 = 4"
  by (rule real_sqrt_unique) simp_all

lemma sqrt_25: "sqrt 25 = 5"
  by (rule real_sqrt_unique) simp_all

lemma sqrt_49: "sqrt 49 = 7"
  by (rule real_sqrt_unique) simp_all

lemma sqrt_225: "sqrt 225 = 15"
  by (rule real_sqrt_unique) simp_all

lemma sqrt_400: "sqrt 400 = 20"
  by (rule real_sqrt_unique) simp_all

lemma sqrt_1600: "sqrt 1600 = 40"
  by (rule real_sqrt_unique) simp_all

lemmas sqrt_values = real_sqrt_divide sqrt_16 sqrt_25 sqrt_49 sqrt_225 sqrt_400 sqrt_1600

section \<open>The Givens rotation helper\<close>

lemma givens_rotation_branches:
  assumes "givens_rotation a b = (c, s)" and "b \<noteq> 0"
  obtains t p where "0 < p" "\<bar>a\<bar> < \<bar>b\<bar>" "t = - a / b" "s = p" "c = p * t" "p = 1 / sqrt (1 + t * t)"
  | t p where "0 < p" "\<not> \<bar>a\<bar> < \<bar>b\<bar>" "a \<noteq> 0" "t = - b / a" "c = p" "s = p * t" "p = 1 / sqrt (1 + t * t)"
proof (cases "\<bar>a\<bar> < \<bar>b\<bar>")
  case True
  define t where "t = - a / b"
  define p where "p = 1 / sqrt (1 + t * t)"
  have "0 < 1 + t * t" by (metis add_pos_nonneg zero_le_square zero_less_one)
  then have "0 < p" by (simp add: p_def)
  moreover have "givens_rotation a b = (p * t, p)"
    using True assms(2) by (simp add: givens_rotation_def Let_def p_def t_def)
  with assms(1) have "s = p" "c = p * t" by auto
  ultimately show ?thesis using that(1) True t_def p_def by blast
next
  case False
  define t where "t = - b / a"
  define p where "p = 1 / sqrt (1 + t * t)"
  have "0 < 1 + t * t" by (metis add_pos_nonneg zero_le_square zero_less_one)
  then have "0 < p" by (simp add: p_def)
  moreover have "givens_rotation a b = (p, p * t)"
    using False assms(2) by (simp add: givens_rotation_def Let_def p_def t_def)
  with assms(1) have "c = p" "s = p * t" by auto
  moreover from False assms(2) have "a \<noteq> 0" by auto
  ultimately show ?thesis using that(2) False t_def p_def by blast
qed

lemma givens_rotation_zero: "givens_rotation a 0 = (1, 0)"
  by (simp add: givens_rotation_def)

lemma unit_from_tau:
  fixes t :: real
  assumes "p = 1 / sqrt (1 + t * t)" and "q = p * t"
  shows "p\<^sup>2 + q\<^sup>2 = 1"
proof -
  have pos: "0 < 1 + t * t"
    by (metis add_pos_nonneg zero_le_square zero_less_one)
  have p2: "p\<^sup>2 = 1 / (1 + t * t)"
    using pos assms(1) by (simp add: power_divide)
  have "q\<^sup>2 = p\<^sup>2 * (t * t)"
    unfolding assms(2) by (simp add: power2_eq_square)
  then have "p\<^sup>2 + q\<^sup>2 = 1 / (1 + t * t) + (1 / (1 + t * t)) * (t * t)"
    using p2 by simp
  also have "\<dots> = (1 + t * t) / (1 + t * t)"
    by (simp add: field_simps)
  also have "\<dots> = 1"
    using pos by simp
  finally show ?thesis .
qed

lemma givens_rotation_unit:
  assumes "givens_rotation a b = (c, s)"
  shows "c\<^sup>2 + s\<^sup>2 = 1"
proof (cases "b = 0")
  case True
  with assms show ?thesis by (simp add: givens_rotation_def)
next
  case False
  from assms False show ?thesis
  proof (cases rule: givens_rotation_branches)
    case (1 t p)
    then show ?thesis using unit_from_tau [of s t c] by (simp add: add.commute)
  next
    case (2 t p)
    then show ?thesis using unit_from_tau [of c t s] by simp
  qed
qed

text \<open>What the helper computes is the rotation for the transposed matrix.\<close>

lemma givens_rotation_transposed:
  assumes "givens_rotation a b = (c, s)"
  shows "s * a + c * b = 0"
proof (cases "b = 0")
  case True
  with assms show ?thesis by (simp add: givens_rotation_def)
next
  case False
  from assms False show ?thesis
  proof (cases rule: givens_rotation_branches)
    case (1 t p)
    then show ?thesis using False by simp
  next
    case (2 t p)
    then show ?thesis by simp
  qed
qed

lemma givens_rotation_second_entry:
  assumes "givens_rotation a b = (c, s)" and "a \<noteq> 0" and "b \<noteq> 0"
  shows "- s * a + c * b \<noteq> 0"
proof -
  from assms(1,3) show ?thesis
  proof (cases rule: givens_rotation_branches)
    case (1 t p)
    then have "- s * a + c * b = - 2 * p * a" using assms(3) by simp
    then show ?thesis using 1(1) assms(2) by simp
  next
    case (2 t p)
    then have "- s * a + c * b = 2 * p * b" by simp
    then show ?thesis using 2(1) assms(3) by simp
  qed
qed

text \<open>
  C2. The claim: for all \<open>a\<close> and \<open>b\<close>, \<open>givens_rotation a b\<close> is a pair \<open>(c, s)\<close> with
  \<open>- s a + c b = 0\<close> and \<open>c\<^sup>2 + s\<^sup>2 = 1\<close>, and it is \<open>(1, 0)\<close> when \<open>b = 0\<close>. The
  docstring of the function promises the same elimination,
  \<^verbatim>\<open>[[c, s], [-s, c]] @ [a, b] = [r, 0]\<close>. The function does not do it: at \<open>a = 3\<close>,
  \<open>b = 4\<close> it returns \<open>(- 3/5, 4/5)\<close>, and the second entry of the rotated vector is
  \<open>- 24/5\<close>. (By \<open>givens_rotation_second_entry\<close> the second entry is never zero when
  \<open>a\<close> and \<open>b\<close> are both not zero; by \<open>givens_rotation_transposed\<close> the pair is the one for
  the transposed matrix. \<open>givens_rotation_unit\<close> and \<open>givens_rotation_zero\<close> are the two parts
  of the claim that hold.)
\<close>

theorem givens_rotation_3_4:
  "givens_rotation 3 4 = (- 3 / 5, 4 / 5) \<and> - (4 / 5) * 3 + (- 3 / 5) * 4 = (- 24 / 5 :: real)"
  by (simp add: givens_rotation_def sqrt_values)

section \<open>The residual history\<close>

lemma givens_update_resvec:
  "resvec (givens_update j st) = resvec st @ [\<bar>g (givens_update j st) ! (j + 1)\<bar>]"
  by (simp add: givens_update_def Let_def split: prod.splits)

lemma arnoldi_resvec: "arnoldi A n j st = Inr st' \<Longrightarrow> resvec st' = resvec st"
  by (auto simp: arnoldi_def Let_def split: sum.splits prod.splits)

lemma gmres_step_resvec_Continue:
  "gmres_step A n tol x j st = Continue st' \<Longrightarrow> \<exists>r. resvec st' = resvec st @ [r]"
  by (auto simp: gmres_step_def Let_def givens_update_resvec dest!: arnoldi_resvec
      split: sum.splits if_splits)

lemma gmres_step_resvec_Return:
  "gmres_step A n tol x j st = Return (x', h) \<Longrightarrow> \<exists>r. h = resvec st @ [r]"
  by (auto simp: gmres_step_def Let_def givens_update_resvec dest!: arnoldi_resvec
      split: sum.splits if_splits)

lemma gmres_loop_resvec_Continue:
  "gmres_loop A n tol x js st = Continue st' \<Longrightarrow> \<exists>rs. resvec st' = resvec st @ rs"
proof (induction js arbitrary: st)
  case Nil
  then show ?case by simp
next
  case (Cons j js)
  then show ?case
    by (fastforce split: outcome.splits dest!: gmres_step_resvec_Continue)
qed

lemma gmres_loop_resvec_Return:
  "gmres_loop A n tol x js st = Return (x', h) \<Longrightarrow> \<exists>rs. h = resvec st @ rs"
proof (induction js arbitrary: st)
  case Nil
  then show ?case by simp
next
  case (Cons j js)
  then show ?case
    by (fastforce split: outcome.splits
        dest!: gmres_step_resvec_Continue gmres_step_resvec_Return)
qed

lemma gmres_history_nonempty:
  assumes "gmres lstsq A b x0 tol maxiter = Inr (x, h)"
  shows "h \<noteq> []"
  using assms
  by (auto simp: gmres_def Let_def init_state_def split: sum.splits if_splits outcome.splits
      dest!: gmres_loop_resvec_Continue gmres_loop_resvec_Return)

lemma gmres_default_guess:
  "gmres lstsq A b (Some (zeros (length b))) tol maxiter = gmres lstsq A b None tol maxiter"
  by (simp add: gmres_def)

section \<open>The invariant of the loop\<close>

subsection \<open>Matrices\<close>

lemma shape_mput: "shape r c M \<Longrightarrow> shape r c (mput M i j a)"
proof -
  assume s: "shape r c M"
  show ?thesis
  proof (cases "i < length M")
    case True
    then have "length ((M ! i)[j := a]) = c" using s by (simp add: shape_def)
    then show ?thesis using s
      by (auto simp: shape_def mput_def dest!: set_update_subset_insert [THEN subsetD])
  next
    case False
    then show ?thesis using s by (simp add: mput_def list_update_beyond)
  qed
qed

lemma mget_mput_same:
  "i < length M \<Longrightarrow> j < length (M ! i) \<Longrightarrow> mget (mput M i j a) i j = a"
  by (simp add: mget_def mput_def)

lemma mget_mput_other:
  "i' \<noteq> i \<or> j' \<noteq> j \<Longrightarrow> mget (mput M i j a) i' j' = mget M i' j'"
  by (cases "i < length M"; cases "i' = i") (auto simp: mget_def mput_def list_update_beyond)

lemma shape_nth: "shape r c M \<Longrightarrow> i < r \<Longrightarrow> length (M ! i) = c"
  by (simp add: shape_def)

lemma shape_length: "shape r c M \<Longrightarrow> length M = r"
  by (simp add: shape_def)

lemma mget_mput_shape:
  "shape r c M \<Longrightarrow> i < r \<Longrightarrow> j < c \<Longrightarrow>
   mget (mput M i j a) i' j' = (if i' = i \<and> j' = j then a else mget M i' j')"
  using mget_mput_same [of i M j a] mget_mput_other [of i' i j' j M a]
  by (auto simp: shape_def)

lemma shape_zeros2: "shape r c (zeros2 r c)"
  by (simp add: shape_def zeros2_def zeros_def)

lemma mget_zeros2: "i < r \<Longrightarrow> j < c \<Longrightarrow> mget (zeros2 r c) i j = 0"
  by (simp add: mget_def zeros2_def zeros_def)

lemma length_col: "length (col M j) = length M"
  by (simp add: col_def)

lemma shape_set_col: "shape n c M \<Longrightarrow> length v = n \<Longrightarrow> shape n c (set_col M j v)"
  by (auto simp: shape_def set_col_def dest!: set_zip_leftD)

lemma col_set_col_other:
  "length v = length M \<Longrightarrow> k \<noteq> j \<Longrightarrow> col (set_col M j v) k = col M k"
  by (auto simp: col_def set_col_def intro!: nth_equalityI)

lemma col_set_col_same:
  "shape n c M \<Longrightarrow> length v = n \<Longrightarrow> j < c \<Longrightarrow> col (set_col M j v) j = v"
  by (auto simp: col_def set_col_def shape_def intro!: nth_equalityI)

lemma col_zeros2: "k < c \<Longrightarrow> col (zeros2 n c) k = zeros n"
  by (auto simp: col_def zeros2_def zeros_def intro!: nth_equalityI)

subsection \<open>Gram-Schmidt\<close>

lemma length_vsub: "length (vsub u v) = min (length u) (length v)"
  by (simp add: vsub_def)

lemma length_scal: "length (scal a v) = length v"
  by (simp add: scal_def)

lemma mgs_fold:
  assumes "shape r c Hm" and "length w = n" and "length Vm = n"
    and "fold (mgs_body Vm j) is (Hm, w) = (H1, w1)"
  shows "shape r c H1 \<and> length w1 = n \<and>
         (\<forall>i k. k \<noteq> j \<or> i \<notin> set is \<longrightarrow> mget H1 i k = mget Hm i k)"
  using assms
proof (induction "is" arbitrary: Hm w)
  case Nil
  then show ?case by simp
next
  case (Cons i "is")
  define H' where "H' = mput Hm i j (dot (col Vm i) w)"
  define w' where "w' = vsub w (scal (mget H' i j) (col Vm i))"
  have step: "mgs_body Vm j i (Hm, w) = (H', w')"
    by (simp add: mgs_body_def Let_def H'_def w'_def)
  have s: "shape r c H'" using Cons.prems(1) by (simp add: H'_def shape_mput)
  have l: "length w' = n" using Cons.prems(2,3) by (simp add: w'_def length_vsub length_scal length_col)
  from Cons.prems(4) step have "fold (mgs_body Vm j) is (H', w') = (H1, w1)" by simp
  from Cons.IH [OF s l Cons.prems(3) this]
  have ih: "shape r c H1" "length w1 = n"
    "\<forall>i k. k \<noteq> j \<or> i \<notin> set is \<longrightarrow> mget H1 i k = mget H' i k" by auto
  have "mget H1 i' k = mget Hm i' k" if "k \<noteq> j \<or> i' \<notin> set (i # is)" for i' k
  proof -
    from that have "mget H1 i' k = mget H' i' k" using ih(3) by auto
    also from that have "\<dots> = mget Hm i' k"
      unfolding H'_def by (intro mget_mput_other) auto
    finally show ?thesis .
  qed
  with ih show ?case by blast
qed

lemma mgs_props:
  assumes "shape r c Hm" and "length w = n" and "length Vm = n"
    and "mgs Vm j (Hm, w) = (H1, w1)"
  shows "shape r c H1" and "length w1 = n"
    and "\<And>i k. k \<noteq> j \<or> j < i \<Longrightarrow> mget H1 i k = mget Hm i k"
proof -
  from assms(4) have f: "fold (mgs_body Vm j) [0..<j + 1] (Hm, w) = (H1, w1)"
    by (simp add: mgs_def)
  from mgs_fold [OF assms(1-3) f] show "shape r c H1" "length w1 = n" by auto
  fix i k
  assume "k \<noteq> j \<or> j < i"
  then have "k \<noteq> j \<or> i \<notin> set [0..<j + 1]" by auto
  with mgs_fold [OF assms(1-3) f] show "mget H1 i k = mget Hm i k" by blast
qed

subsection \<open>The rotations\<close>

lemma rot_fold:
  assumes "shape r c Hm"
  shows "shape r c (fold (rot_body cv sv j) is Hm) \<and>
         (\<forall>i k. k \<noteq> j \<or> (i \<notin> set is \<and> i \<notin> Suc ` set is) \<longrightarrow>
            mget (fold (rot_body cv sv j) is Hm) i k = mget Hm i k)"
  using assms
proof (induction "is" arbitrary: Hm)
  case Nil
  then show ?case by simp
next
  case (Cons i "is")
  define H' where "H' = rot_body cv sv j i Hm"
  have s: "shape r c H'" using Cons.prems by (simp add: H'_def rot_body_def Let_def shape_mput)
  have o: "mget H' i' k = mget Hm i' k" if "k \<noteq> j \<or> (i' \<noteq> i \<and> i' \<noteq> Suc i)" for i' k
    using that by (auto simp: H'_def rot_body_def Let_def mget_mput_other)
  from Cons.IH [OF s]
  have ih: "shape r c (fold (rot_body cv sv j) is H')"
    "\<forall>i k. k \<noteq> j \<or> (i \<notin> set is \<and> i \<notin> Suc ` set is) \<longrightarrow>
            mget (fold (rot_body cv sv j) is H') i k = mget H' i k" by auto
  have "mget (fold (rot_body cv sv j) (i # is) Hm) i' k = mget Hm i' k"
    if "k \<noteq> j \<or> (i' \<notin> set (i # is) \<and> i' \<notin> Suc ` set (i # is))" for i' k
  proof -
    from that have "mget (fold (rot_body cv sv j) is H') i' k = mget H' i' k"
      using ih(2) by auto
    also from that have "\<dots> = mget Hm i' k" by (intro o) auto
    finally show ?thesis by (simp add: H'_def)
  qed
  with ih(1) show ?case by (simp add: H'_def)
qed

lemma apply_rotations_props:
  assumes "shape r c Hm"
  shows "shape r c (apply_rotations cv sv j Hm)"
    and "\<And>i k. k \<noteq> j \<or> j < i \<Longrightarrow> mget (apply_rotations cv sv j Hm) i k = mget Hm i k"
proof -
  from rot_fold [OF assms, of cv sv j "[0..<j]"] show "shape r c (apply_rotations cv sv j Hm)"
    by (simp add: apply_rotations_def)
  fix i k
  assume "k \<noteq> j \<or> j < i"
  then have "k \<noteq> j \<or> (i \<notin> set [0..<j] \<and> i \<notin> Suc ` set [0..<j])" by auto
  with rot_fold [OF assms, of cv sv j "[0..<j]"]
  show "mget (apply_rotations cv sv j Hm) i k = mget Hm i k"
    unfolding apply_rotations_def by blast
qed

subsection \<open>One step\<close>

lemma apply_op_length: "apply_op A n x = Inr w \<Longrightarrow> length w = n \<and> w = A x"
  by (auto simp: apply_op_def split: if_splits)

lemma arnoldi_props:
  assumes "shape n (m + 1) (V st)" and "shape (m + 1) m (H st)" and "j < m"
    and "arnoldi A n j st = Inr st1"
  shows "shape n (m + 1) (V st1)" and "shape (m + 1) m (H st1)"
    and "cs st1 = cs st" and "sn st1 = sn st" and "g st1 = g st" and "resvec st1 = resvec st"
    and "\<And>i k. k \<noteq> j \<or> j + 1 < i \<Longrightarrow> mget (H st1) i k = mget (H st) i k"
    and "\<And>k. k \<noteq> j + 1 \<Longrightarrow> col (V st1) k = col (V st) k"
    and "mget (H st1) (j + 1) j = 0 \<Longrightarrow> V st1 = V st"
proof -
  from assms(4) obtain w0 where w0: "apply_op A n (col (V st) j) = Inr w0"
    by (auto simp: arnoldi_def split: sum.splits)
  then have lw0: "length w0 = n" using apply_op_length by blast
  obtain H1 w where m: "mgs (V st) j (H st, w0) = (H1, w)"
    by (cases "mgs (V st) j (H st, w0)")
  have lV: "length (V st) = n" using assms(1) by (simp add: shape_def)
  note mp = mgs_props [OF assms(2) lw0 lV m]
  define H2 where "H2 = mput H1 (j + 1) j (norm2 w)"
  define V2 where "V2 = (if mget H2 (j + 1) j \<noteq> 0
       then set_col (V st) (j + 1) (vdiv w (mget H2 (j + 1) j)) else V st)"
  from assms(4) w0 m have st1: "st1 = st\<lparr>V := V2, H := H2\<rparr>"
    by (auto simp: arnoldi_def Let_def H2_def V2_def)
  have lv: "length (vdiv w a) = n" for a using mp(2) by (simp add: vdiv_def)
  show "shape n (m + 1) (V st1)"
    using assms(1) lv by (simp add: st1 V2_def shape_set_col)
  show "shape (m + 1) m (H st1)"
    using mp(1) by (simp add: st1 H2_def shape_mput)
  show "cs st1 = cs st" "sn st1 = sn st" "g st1 = g st" "resvec st1 = resvec st"
    by (simp_all add: st1)
  show "mget (H st1) i k = mget (H st) i k" if "k \<noteq> j \<or> j + 1 < i" for i k
  proof -
    from that have "mget H2 i k = mget H1 i k"
      unfolding H2_def by (intro mget_mput_other) auto
    also from that have "\<dots> = mget (H st) i k" by (intro mp(3)) auto
    finally show ?thesis by (simp add: st1)
  qed
  show "col (V st1) k = col (V st) k" if "k \<noteq> j + 1" for k
    using that lv lV by (simp add: st1 V2_def col_set_col_other)
  show "V st1 = V st" if "mget (H st1) (j + 1) j = 0"
    using that by (simp add: st1 V2_def)
qed

lemma givens_update_props:
  assumes "shape (m + 1) m (H st1)" and "j < m" and "length (g st1) = m + 1"
  shows "V (givens_update j st1) = V st1"
    and "shape (m + 1) m (H (givens_update j st1))"
    and "length (cs (givens_update j st1)) = length (cs st1)"
    and "length (sn (givens_update j st1)) = length (sn st1)"
    and "length (g (givens_update j st1)) = m + 1"
    and "\<And>i k. k \<noteq> j \<or> j + 1 < i \<Longrightarrow> mget (H (givens_update j st1)) i k = mget (H st1) i k"
    and "mget (H (givens_update j st1)) (j + 1) j = 0"
    and "\<And>k. j + 1 < k \<Longrightarrow> g (givens_update j st1) ! k = g st1 ! k"
    and "mget (H st1) (j + 1) j = 0 \<Longrightarrow> g (givens_update j st1) = g st1"
proof -
  define H1 where "H1 = apply_rotations (cs st1) (sn st1) j (H st1)"
  obtain c s where cs: "givens_rotation (mget H1 j j) (mget H1 (j + 1) j) = (c, s)"
    by (cases "givens_rotation (mget H1 j j) (mget H1 (j + 1) j)")
  define H2 where "H2 = mput H1 j j (c * mget H1 j j + s * mget H1 (j + 1) j)"
  define H3 where "H3 = mput H2 (j + 1) j 0"
  define g2 where "g2 = (g st1)[j + 1 := - s * g st1 ! j + c * g st1 ! (j + 1),
                                j := c * g st1 ! j + s * g st1 ! (j + 1)]"
  have st2: "givens_update j st1 = st1\<lparr>H := H3, cs := (cs st1)[j := c], sn := (sn st1)[j := s],
      g := g2, resvec := resvec st1 @ [\<bar>g2 ! (j + 1)\<bar>]\<rparr>"
    using cs by (simp add: givens_update_def Let_def H1_def [symmetric] H2_def H3_def g2_def)
  note ar = apply_rotations_props [OF assms(1), where cv = "cs st1" and sv = "sn st1" and j = j,
      folded H1_def]
  have s2: "shape (m + 1) m H2" using ar(1) by (simp add: H2_def shape_mput)
  show "V (givens_update j st1) = V st1" by (simp add: st2)
  show "shape (m + 1) m (H (givens_update j st1))"
    using s2 by (simp add: st2 H3_def shape_mput)
  show "length (cs (givens_update j st1)) = length (cs st1)"
    "length (sn (givens_update j st1)) = length (sn st1)"
    by (simp_all add: st2)
  show "length (g (givens_update j st1)) = m + 1"
    using assms(3) by (simp add: st2 g2_def)
  show "mget (H (givens_update j st1)) i k = mget (H st1) i k" if "k \<noteq> j \<or> j + 1 < i" for i k
  proof -
    from that have "mget H3 i k = mget H2 i k"
      unfolding H3_def by (intro mget_mput_other) auto
    also from that have "\<dots> = mget H1 i k"
      unfolding H2_def by (intro mget_mput_other) auto
    also from that have "\<dots> = mget (H st1) i k" by (intro ar(2)) auto
    finally show ?thesis by (simp add: st2)
  qed
  show "mget (H (givens_update j st1)) (j + 1) j = 0"
    using s2 assms(2) by (simp add: st2 H3_def mget_mput_shape)
  show "g (givens_update j st1) ! k = g st1 ! k" if "j + 1 < k" for k
    using that by (simp add: st2 g2_def)
  show "g (givens_update j st1) = g st1" if "mget (H st1) (j + 1) j = 0"
  proof -
    have "mget H1 (j + 1) j = mget (H st1) (j + 1) j" by (intro ar(2)) simp
    with that cs have "c = 1" "s = 0" by (simp_all add: givens_rotation_def)
    then show ?thesis by (simp add: st2 g2_def)
  qed
qed

lemma step_inv:
  assumes inv: "loop_inv n m j st" and j: "j < m"
    and a: "arnoldi A n j st = Inr st1"
  shows "loop_inv n m (Suc j) (givens_update j st1)"
proof -
  from inv have sV: "shape n (m + 1) (V st)" and sH: "shape (m + 1) m (H st)"
    and lc: "length (cs st) = m" and ls: "length (sn st) = m" and lg: "length (g st) = m + 1"
    and zH: "\<And>i k. i \<le> m \<Longrightarrow> k < m \<Longrightarrow> k < i \<or> j \<le> k \<Longrightarrow> mget (H st) i k = 0"
    and zg: "\<And>k. j < k \<Longrightarrow> k \<le> m \<Longrightarrow> g st ! k = 0"
    and zV: "\<And>k. j < k \<Longrightarrow> k \<le> m \<Longrightarrow> col (V st) k = zeros n"
    by (simp_all add: loop_inv_def)
  note ap = arnoldi_props [OF sV sH j a]
  have lg1: "length (g st1) = m + 1" using ap(5) lg by simp
  note gp = givens_update_props [OF ap(2) j lg1]
  let ?st2 = "givens_update j st1"
  have "mget (H ?st2) i k = 0" if "i \<le> m" "k < m" "k < i \<or> Suc j \<le> k" for i k
  proof (cases "k = j")
    case True
    with that(3) have ji: "j < i" by simp
    show ?thesis
    proof (cases "i = j + 1")
      case True
      with \<open>k = j\<close> gp(7) show ?thesis by simp
    next
      case False
      with ji have "j + 1 < i" by simp
      then have "mget (H ?st2) i k = mget (H st) i k" using gp(6) ap(7) by simp
      with that(1,2) \<open>k = j\<close> zH [of i k] show ?thesis by simp
    qed
  next
    case False
    then have "mget (H ?st2) i k = mget (H st) i k" using gp(6) ap(7) by simp
    moreover from that False have "k < i \<or> j \<le> k" by auto
    ultimately show ?thesis using that(1,2) zH [of i k] by simp
  qed
  moreover have "g ?st2 ! k = 0" if "Suc j < k" "k \<le> m" for k
    using that gp(8) [of k] ap(5) zg [of k] by simp
  moreover have "col (V ?st2) k = zeros n" if "Suc j < k" "k \<le> m" for k
    using that gp(1) ap(8) [of k] zV [of k] by simp
  ultimately show ?thesis
    using gp(1-5) ap(1,3,4) lc ls by (simp add: loop_inv_def)
qed

lemma gmres_step_Continue:
  "gmres_step A n tol x j st = Continue st' \<Longrightarrow>
   \<exists>st1. arnoldi A n j st = Inr st1 \<and> st' = givens_update j st1 \<and> \<not> \<bar>g st' ! (j + 1)\<bar> \<le> tol"
  by (auto simp: gmres_step_def Let_def split: sum.splits if_splits)

lemma init_inv:
  assumes "length r0 = n"
  shows "loop_inv n m 0 (init_state n m r0 beta)"
proof -
  have lv: "length (vdiv r0 beta) = n" using assms by (simp add: vdiv_def)
  have "col (set_col (zeros2 n (m + 1)) 0 (vdiv r0 beta)) k = zeros n" if "0 < k" "k \<le> m" for k
    using that lv by (simp add: col_set_col_other shape_length [OF shape_zeros2] col_zeros2)
  moreover have "(zeros (m + 1))[0 := beta] ! k = 0" if "0 < k" "k \<le> m" for k
    using that by (simp add: zeros_def)
  moreover have "length (zeros m) = m" "length ((zeros (m + 1))[0 := beta]) = m + 1"
    by (simp_all add: zeros_def)
  moreover have "shape n (m + 1) (set_col (zeros2 n (m + 1)) 0 (vdiv r0 beta))"
    using lv by (simp add: shape_set_col shape_zeros2)
  moreover have "mget (zeros2 (m + 1) m) i k = 0" if "i \<le> m" "k < m" for i k
    using that by (simp add: mget_zeros2)
  ultimately show ?thesis
    unfolding loop_inv_def init_state_def by (simp add: shape_zeros2)
qed

subsection \<open>The loop\<close>

lemma gmres_loop_append:
  "gmres_loop A n tol x (js @ ks) st =
     (case gmres_loop A n tol x js st of
        Continue st' \<Rightarrow> gmres_loop A n tol x ks st'
      | Return r \<Rightarrow> Return r
      | Raise e \<Rightarrow> Raise e)"
  by (induction js arbitrary: st) (auto split: outcome.splits)

lemma gmres_loop_snoc_Continue:
  assumes "gmres_loop A n tol x [0..<Suc j] st0 = Continue st'"
  obtains st where "gmres_loop A n tol x [0..<j] st0 = Continue st"
    and "gmres_step A n tol x j st = Continue st'"
  using assms by (auto simp: gmres_loop_append split: outcome.splits)

lemma gmres_loop_inv:
  assumes "loop_inv n m 0 st0" and "j \<le> m" and "gmres_loop A n tol x [0..<j] st0 = Continue st"
  shows "loop_inv n m j st"
  using assms(2,3)
proof (induction j arbitrary: st)
  case 0
  with assms(1) show ?case by simp
next
  case (Suc j)
  from Suc.prems(2) obtain st' where p: "gmres_loop A n tol x [0..<j] st0 = Continue st'"
    and s: "gmres_step A n tol x j st' = Continue st"
    by (rule gmres_loop_snoc_Continue)
  from Suc.prems(1) have jm: "j < m" "j \<le> m" by simp_all
  from Suc.IH [OF jm(2) p] have inv: "loop_inv n m j st'" .
  from gmres_step_Continue [OF s] obtain st1 where
    "arnoldi A n j st' = Inr st1" "st = givens_update j st1" by blast
  with step_inv [OF inv jm(1)] show ?case by simp
qed

lemma reaches_inv:
  assumes "reaches A b x0 tol maxiter j st"
  shows "loop_inv (length b) (nat (step_bound b maxiter)) j st"
proof -
  from assms obtain Ax where Ax: "apply_op A (length b) (start_guess b x0) = Inr Ax"
    and j: "int j \<le> step_bound b maxiter"
    and run: "gmres_loop A (length b) tol (start_guess b x0) [0..<j]
       (init_state (length b) (nat (step_bound b maxiter)) (vsub b Ax) (norm2 (vsub b Ax)))
       = Continue st"
    by (auto simp: reaches_def split: sum.splits)
  have "length (vsub b Ax) = length b"
    using apply_op_length [OF Ax, THEN conjunct1] by (simp add: length_vsub)
  from gmres_loop_inv [OF init_inv [OF this] _ run] j show ?thesis by simp
qed

lemma gmres_from:
  assumes "reaches A b x0 tol maxiter j st"
  shows "gmres lstsq A b x0 tol maxiter =
     (let m = nat (step_bound b maxiter)
      in case gmres_loop A (length b) tol (start_guess b x0) [j..<m] st of
           Raise e \<Rightarrow> Inl e
         | Return r \<Rightarrow> Inr r
         | Continue st' \<Rightarrow>
             Inr (vadd (start_guess b x0)
                    (matvec (cols_upto (V st') m) (lstsq (block (H st') m m) (take m (g st')))),
                  resvec st'))"
proof -
  let ?m = "nat (step_bound b maxiter)"
  from assms obtain Ax where Ax: "apply_op A (length b) (start_guess b x0) = Inr Ax"
    and nz: "norm2 (vsub b Ax) \<noteq> 0"
    and j: "int j \<le> step_bound b maxiter"
    and run: "gmres_loop A (length b) tol (start_guess b x0) [0..<j]
       (init_state (length b) ?m (vsub b Ax) (norm2 (vsub b Ax))) = Continue st"
    by (auto simp: reaches_def split: sum.splits)
  from j have "j \<le> ?m" by simp
  then have "[0..<?m] = [0..<j] @ [j..<?m]"
    by (metis le_add_diff_inverse upt_add_eq_append zero_le)
  then have "gmres_loop A (length b) tol (start_guess b x0) [0..<?m]
       (init_state (length b) ?m (vsub b Ax) (norm2 (vsub b Ax)))
     = gmres_loop A (length b) tol (start_guess b x0) [j..<?m] st"
    using run by (simp add: gmres_loop_append)
  moreover from j have "\<not> step_bound b maxiter < 0" by simp
  ultimately show ?thesis
    using Ax nz unfolding gmres_def Let_def start_guess_def [symmetric] step_bound_def [symmetric]
    by simp
qed

section \<open>Back substitution\<close>

subsection \<open>Dot products\<close>

lemma dot_Nil [simp]: "dot [] v = 0" "dot u [] = 0"
  by (simp_all add: dot_def)

lemma dot_Cons [simp]: "dot (a # u) (c # v) = a * c + dot u v"
  by (simp add: dot_def)

lemma dot_split: "dot u v = dot (take p u) (take p v) + dot (drop p u) (drop p v)"
proof -
  have "map2 (*) u v = map2 (*) (take p u) (take p v) @ map2 (*) (drop p u) (drop p v)"
    by (metis append_take_drop_id drop_map drop_zip take_map take_zip)
  then show ?thesis by (simp add: dot_def)
qed

lemma dot_zero_left: "\<forall>a \<in> set u. a = 0 \<Longrightarrow> dot u v = 0"
proof (induction u arbitrary: v)
  case Nil
  then show ?case by simp
next
  case (Cons a u)
  then show ?case by (cases v) simp_all
qed

lemma dot_snoc: "length u = length v \<Longrightarrow> dot (u @ [a]) (v @ [c]) = dot u v + a * c"
  by (simp add: dot_def)

subsection \<open>Triangular systems\<close>

lemma solve_from_Inr:
  "solve_from i rows gs = Inr ys \<Longrightarrow>
   length rows = length gs \<and> length ys = length rows \<and>
   (\<forall>p < length rows. rows ! p ! (i + p) \<noteq> 0 \<and>
      rows ! p ! (i + p) * ys ! p + dot (drop (Suc (i + p)) (rows ! p)) (drop (Suc p) ys) = gs ! p)"
proof (induction i rows gs arbitrary: ys rule: solve_from.induct)
  case (1 i)
  then show ?case by simp
next
  case (2 i row rows gi gs)
  from "2.prems" obtain ys' where rec: "solve_from (Suc i) rows gs = Inr ys'"
    and nz: "row ! i \<noteq> 0"
    and ys: "ys = (gi - dot (drop (Suc i) row) ys') / (row ! i) # ys'"
    by (auto split: sum.splits if_splits)
  from "2.IH" [OF rec] have ih: "length rows = length gs" "length ys' = length rows"
    "\<forall>p < length rows. rows ! p ! (Suc i + p) \<noteq> 0 \<and>
      rows ! p ! (Suc i + p) * ys' ! p + dot (drop (Suc (Suc i + p)) (rows ! p)) (drop (Suc p) ys')
        = gs ! p"
    by auto
  have "(row # rows) ! p ! (i + p) \<noteq> 0 \<and>
      (row # rows) ! p ! (i + p) * ys ! p
        + dot (drop (Suc (i + p)) ((row # rows) ! p)) (drop (Suc p) ys) = (gi # gs) ! p"
    if "p < length (row # rows)" for p
  proof (cases p)
    case 0
    then show ?thesis using nz ys by simp
  next
    case (Suc p')
    with that have "p' < length rows" by simp
    with ih(3) Suc ys show ?thesis by simp
  qed
  with ih ys show ?case by simp
qed simp_all

lemma solve_from_Inl:
  "length rows = length gs \<Longrightarrow> solve_from i rows gs = Inl e \<Longrightarrow>
   e = LinAlgError \<and> (\<exists>p < length rows. rows ! p ! (i + p) = 0)"
proof (induction i rows gs rule: solve_from.induct)
  case (1 i)
  then show ?case by simp
next
  case (2 i row rows gi gs)
  show ?case
  proof (cases "solve_from (Suc i) rows gs")
    case (Inl e')
    with "2.prems" have "e = e'" by simp
    with "2.IH" Inl "2.prems"(1) obtain p where "e = LinAlgError" "p < length rows"
      "rows ! p ! (Suc i + p) = 0" by auto
    then show ?thesis by (auto intro!: exI [of _ "Suc p"])
  next
    case (Inr ys')
    with "2.prems" have "row ! i = 0" "e = LinAlgError" by (auto split: if_splits)
    then show ?thesis by (auto intro!: exI [of _ 0])
  qed
qed simp_all

lemma linalg_solve_upper:
  assumes sh: "shape k k R" and lg: "length gs = k"
    and up: "\<And>p q. p < k \<Longrightarrow> q < p \<Longrightarrow> mget R p q = 0"
  shows "(\<exists>p < k. mget R p p = 0) \<Longrightarrow> linalg_solve R gs = Inl LinAlgError"
    and "\<not> (\<exists>p < k. mget R p p = 0) \<Longrightarrow>
         \<exists>y. linalg_solve R gs = Inr y \<and> length y = k \<and> matvec R y = gs"
proof -
  have len: "length R = length gs" using sh lg by (simp add: shape_def)
  {
    assume "\<exists>p < k. mget R p p = 0"
    show "linalg_solve R gs = Inl LinAlgError"
    proof (cases "linalg_solve R gs")
      case (Inl e)
      with solve_from_Inl [OF len, of 0 e] show ?thesis by (simp add: linalg_solve_def)
    next
      case (Inr y)
      with solve_from_Inr [of 0 R gs y] \<open>\<exists>p < k. mget R p p = 0\<close> sh
      show ?thesis by (auto simp: linalg_solve_def mget_def shape_def)
    qed
  next
    assume nz: "\<not> (\<exists>p < k. mget R p p = 0)"
    show "\<exists>y. linalg_solve R gs = Inr y \<and> length y = k \<and> matvec R y = gs"
    proof (cases "linalg_solve R gs")
      case (Inl e)
      with solve_from_Inl [OF len, of 0 e] nz sh show ?thesis
        by (auto simp: linalg_solve_def mget_def shape_def)
    next
      case (Inr y)
      with solve_from_Inr [of 0 R gs y] have ly: "length y = k"
        and row: "\<And>p. p < k \<Longrightarrow>
          R ! p ! p * y ! p + dot (drop (Suc p) (R ! p)) (drop (Suc p) y) = gs ! p"
        using sh by (auto simp: linalg_solve_def shape_def)
      have "dot (R ! p) y = gs ! p" if p: "p < k" for p
      proof -
        have lr: "length (R ! p) = k" using sh p by (simp add: shape_def)
        have "\<forall>a \<in> set (take p (R ! p)). a = 0"
        proof
          fix a assume "a \<in> set (take p (R ! p))"
          then obtain q where "q < p" "a = R ! p ! q"
            using lr p by (auto simp: in_set_conv_nth)
          with up [OF p] show "a = 0" by (simp add: mget_def)
        qed
        then have z: "dot (take p (R ! p)) (take p y) = 0" by (rule dot_zero_left)
        have "drop p (R ! p) = R ! p ! p # drop (Suc p) (R ! p)"
          using lr p by (simp add: Cons_nth_drop_Suc)
        moreover have "drop p y = y ! p # drop (Suc p) y"
          using ly p by (simp add: Cons_nth_drop_Suc)
        ultimately have "dot (drop p (R ! p)) (drop p y) = gs ! p"
          using row [OF p] by simp
        with z dot_split [of "R ! p" y p] show ?thesis by simp
      qed
      then have "matvec R y = gs"
        using sh lg by (auto simp: matvec_def shape_def intro!: nth_equalityI)
      with Inr ly show ?thesis by simp
    qed
  }
qed

subsection \<open>Blocks\<close>

lemma shape_block:
  "shape r c M \<Longrightarrow> k \<le> r \<Longrightarrow> l \<le> c \<Longrightarrow> shape k l (block M k l)"
  by (auto simp: shape_def block_def dest!: in_set_takeD)

lemma mget_block: "p < k \<Longrightarrow> q < l \<Longrightarrow> k \<le> length M \<Longrightarrow> mget (block M k l) p q = mget M p q"
  by (simp add: mget_def block_def)

text \<open>
  The matrix that a step hands to \<^verbatim>\<open>np.linalg.solve\<close> is square and upper triangular.
\<close>

lemma gmres_solve_upper:
  assumes "reaches A b x0 tol maxiter j st" and "int j < step_bound b maxiter"
    and "arnoldi A (length b) j st = Inr st1"
  shows "shape (j + 1) (j + 1) (block (H (givens_update j st1)) (j + 1) (j + 1))"
    and "\<And>p q. p < j + 1 \<Longrightarrow> q < p \<Longrightarrow>
           mget (block (H (givens_update j st1)) (j + 1) (j + 1)) p q = 0"
proof -
  let ?m = "nat (step_bound b maxiter)"
  let ?st2 = "givens_update j st1"
  from assms(2) have j: "j < ?m" by simp
  have "loop_inv (length b) ?m (Suc j) ?st2"
    by (rule step_inv [OF reaches_inv [OF assms(1)] j assms(3)])
  then have sH2: "shape (?m + 1) ?m (H ?st2)"
    and zH2: "\<And>i k. i \<le> ?m \<Longrightarrow> k < ?m \<Longrightarrow> k < i \<Longrightarrow> mget (H ?st2) i k = 0"
    by (simp_all add: loop_inv_def)
  show "shape (j + 1) (j + 1) (block (H ?st2) (j + 1) (j + 1))"
    using j by (intro shape_block [OF sH2]) simp_all
  fix p q
  assume pq: "p < j + 1" "q < p"
  have "j + 1 \<le> length (H ?st2)" using sH2 j by (simp add: shape_def)
  with pq have "mget (block (H ?st2) (j + 1) (j + 1)) p q = mget (H ?st2) p q"
    by (intro mget_block) simp_all
  with pq j zH2 [of p q] show "mget (block (H ?st2) (j + 1) (j + 1)) p q = 0" by simp
qed

section \<open>The exits of the solver\<close>

text \<open>
  C7. When the initial residual norm \<open>\<parallel>b - A x0\<parallel>\<close> is zero, \<open>gmres\<close> returns the initial guess
  (the zero vector when none is given) with the history \<open>[0]\<close>, whatever the tolerance and
  the bound on the steps are: no step of the loop is taken, and the result is a normal
  return.
\<close>

theorem gmres_zero_residual:
  assumes "x = (case x0 of None \<Rightarrow> zeros (length b) | Some v \<Rightarrow> v)"
    and "apply_op A (length b) x = Inr Ax"
    and "norm2 (vsub b Ax) = 0"
  shows "gmres lstsq A b x0 tol maxiter = Inr (x, [0])"
  using assms by (simp add: gmres_def)

theorem gmres_zero_residual_witness:
  "apply_op (matvec [[2, 0], [0, 2]]) (length [2, 4 :: real]) [1, 2] = Inr [2, 4] \<and>
   norm2 (vsub [2, 4] [2, 4]) = 0 \<and>
   gmres lstsq_regular (matvec [[2, 0], [0, 2]]) [2, 4] (Some [1, 2]) (1 / 10 ^ 8) (Some 7)
     = Inr ([1, 2], [0])"
proof -
  have a: "apply_op (matvec [[2, 0], [0, 2]]) (length [2, 4 :: real]) [1, 2] = Inr [2, 4]"
    by (simp add: apply_op_def vec_defs)
  have n: "norm2 (vsub [2, 4] [2, 4]) = 0"
    by (simp add: vec_defs)
  have x: "[1, 2] = (case Some [1, 2] of None \<Rightarrow> zeros (length [2, 4 :: real]) | Some v \<Rightarrow> v)"
    by simp
  from gmres_zero_residual [OF x a n] a n show ?thesis by simp
qed

text \<open>
  C4. The scenario of the specification: the identity of size 5, \<open>b\<close> all ones and the zero
  initial guess, with the default tolerance and the default bound on the steps. The first
  Arnoldi step computes \<open>H[0, 0] = 1\<close> and \<open>H[1, 0] = 0\<close>, and \<open>gmres\<close> returns the solution
  \<open>[1, 1, 1, 1, 1]\<close> with the history \<open>[\<surd>5, 0]\<close>.
\<close>

theorem identity_scenario:
  "(case arnoldi (matvec [[1, 0, 0, 0, 0], [0, 1, 0, 0, 0], [0, 0, 1, 0, 0], [0, 0, 0, 1, 0],
                          [0, 0, 0, 0, 1]]) 5 0 (init_state 5 5 [1, 1, 1, 1, 1] (sqrt 5)) of
      Inl e \<Rightarrow> False
    | Inr st \<Rightarrow> mget (H st) 0 0 = 1 \<and> mget (H st) 1 0 = 0) \<and>
   gmres lstsq (matvec [[1, 0, 0, 0, 0], [0, 1, 0, 0, 0], [0, 0, 1, 0, 0], [0, 0, 0, 1, 0],
                        [0, 0, 0, 0, 1]]) [1, 1, 1, 1, 1] (Some [0, 0, 0, 0, 0]) (1 / 10 ^ 8) None
     = Inr ([1, 1, 1, 1, 1], [sqrt 5, 0])"
  by (simp add: run_defs vec_defs upt_rec Let_def eval_nat_numeral)

text \<open>
  C1. The claim: for every pair \<open>(x, history)\<close> that \<open>gmres\<close> returns, on each of its exits,
  the norm of the true residual \<open>b - A x\<close> is the last entry of the history. On the matrix
  with the rows \<open>[3, 0]\<close> and \<open>[4, 1]\<close> and \<open>b = [1, 0]\<close>, with the defaults, \<open>gmres\<close>
  leaves through the convergence exit with the history \<open>[1, 4/5, 0]\<close> and
  \<open>x = [- 25/21, 4/3]\<close>, whose true residual has the norm \<open>40/7\<close>; the solution of the
  system is \<open>[1/3, - 4/3]\<close>. With \<open>maxiter = 1\<close> the loop runs out, and \<open>gmres\<close> returns
  the history \<open>[1, 4/5]\<close> and \<open>x = [- 3/7, 0]\<close>, whose true residual has the norm \<open>20/7\<close>.
\<close>

theorem gmres_residual_3_4:
  "gmres lstsq_regular (matvec [[3, 0], [4, 1]]) [1, 0] None (1 / 10 ^ 8) None
     = Inr ([- 25 / 21, 4 / 3], [1, 4 / 5, 0]) \<and>
   residual_norm (matvec [[3, 0], [4, 1]]) [1, 0] [- 25 / 21, 4 / 3] = 40 / 7 \<and>
   residual_norm (matvec [[3, 0], [4, 1]]) [1, 0] [1 / 3, - 4 / 3] = 0 \<and>
   gmres lstsq_regular (matvec [[3, 0], [4, 1]]) [1, 0] None (1 / 10 ^ 8) (Some 1)
     = Inr ([- 3 / 7, 0], [1, 4 / 5]) \<and>
   residual_norm (matvec [[3, 0], [4, 1]]) [1, 0] [- 3 / 7, 0] = 20 / 7"
  by (simp add: run_defs vec_defs upt_rec Let_def sqrt_values eval_nat_numeral)

section \<open>The least-squares solve after the last step\<close>

lemma dot_self_nonneg: "0 \<le> dot v v"
  by (induction v) simp_all

lemma matvec_snoc: "matvec (M @ [row]) z = matvec M z @ [dot row z]"
  by (simp add: matvec_def)

lemma length_matvec: "length (matvec M z) = length M"
  by (simp add: matvec_def)

lemma residual_snoc:
  assumes "length M = length r" and "\<forall>a \<in> set row. a = 0"
  shows "lstsq_residual (M @ [row]) (r @ [c]) z = sqrt ((lstsq_residual M r z)\<^sup>2 + c\<^sup>2)"
proof -
  let ?d = "vsub (matvec M z) r"
  have "vsub (matvec (M @ [row]) z) (r @ [c]) = ?d @ [- c]"
    using assms by (simp add: matvec_snoc vsub_def length_matvec dot_zero_left)
  then have "dot (vsub (matvec (M @ [row]) z) (r @ [c])) (vsub (matvec (M @ [row]) z) (r @ [c]))
      = dot ?d ?d + c * c"
    by (simp add: dot_snoc)
  moreover have "0 \<le> dot ?d ?d"
    by (rule dot_self_nonneg)
  ultimately show ?thesis
    by (simp add: lstsq_residual_def norm2_def power2_eq_square)
qed

lemma residual_snoc_le:
  assumes "length M = length r" and "\<forall>a \<in> set row. a = 0"
  shows "lstsq_residual (M @ [row]) (r @ [c]) z \<le> lstsq_residual (M @ [row]) (r @ [c]) z'
     \<longleftrightarrow> lstsq_residual M r z \<le> lstsq_residual M r z'"
proof -
  have nn: "0 \<le> lstsq_residual M r u" for u
    by (simp add: lstsq_residual_def norm2_def dot_self_nonneg)
  show ?thesis
    unfolding residual_snoc [OF assms]
    using nn [of z] nn [of z'] by (simp add: power2_le_iff_abs_le)
qed

lemma min_norm_lstsq_snoc:
  assumes "length M = length r" and "\<forall>a \<in> set row. a = 0"
  shows "min_norm_lstsq (M @ [row]) (r @ [c]) k y \<longleftrightarrow> min_norm_lstsq M r k y"
  unfolding min_norm_lstsq_def minimises_def residual_snoc_le [OF assms] ..


text \<open>
  C5. When the loop has gone through all its \<open>maxiter\<close> steps without leaving, \<open>gmres\<close>
  returns normally \<open>x0 + V[:, :maxiter] y\<close> and the history, where \<open>y\<close> is what the
  least-squares solver gives for the square part \<open>H[:maxiter, :maxiter]\<close> and
  \<open>g[:maxiter]\<close>; and when that is the least-squares solution of minimum norm of the square
  part, it is also the least-squares solution of minimum norm of the full
  \<open>(maxiter + 1) \<times> maxiter\<close> matrix \<open>H\<close> with the right-hand side \<open>g\<close>.
\<close>

theorem exhausted_loop_lstsq:
  assumes r: "reaches A b x0 tol maxiter m st" and m: "int m = step_bound b maxiter"
    and y: "y = lstsq (block (H st) m m) (take m (g st))"
    and mn: "min_norm_lstsq (block (H st) m m) (take m (g st)) m y"
  shows "gmres lstsq A b x0 tol maxiter
           = Inr (vadd (start_guess b x0) (matvec (cols_upto (V st) m) y), resvec st) \<and>
         min_norm_lstsq (H st) (g st) m y"
proof -
  from m have m': "nat (step_bound b maxiter) = m" by simp
  have first: "gmres lstsq A b x0 tol maxiter
           = Inr (vadd (start_guess b x0) (matvec (cols_upto (V st) m) y), resvec st)"
    unfolding gmres_from [OF r] Let_def m' y by simp
  from reaches_inv [OF r] have sH: "shape (m + 1) m (H st)" and lg: "length (g st) = m + 1"
    and zH: "\<And>i k. i \<le> m \<Longrightarrow> k < m \<Longrightarrow> k < i \<Longrightarrow> mget (H st) i k = 0"
    by (simp_all add: loop_inv_def m')
  have rows: "\<And>row. row \<in> set (H st) \<Longrightarrow> length row = m" and lH: "length (H st) = m + 1"
    using sH by (simp_all add: shape_def)
  have blk: "block (H st) m m = take m (H st)"
    unfolding block_def using rows by (auto intro!: map_idI dest!: in_set_takeD)
  have Hs: "H st = block (H st) m m @ [H st ! m]"
    unfolding blk using lH by (simp add: take_Suc_conv_app_nth [symmetric])
  have gs: "g st = take m (g st) @ [g st ! m]"
    using lg by (simp add: take_Suc_conv_app_nth [symmetric])
  have zrow: "\<forall>a \<in> set (H st ! m). a = 0"
  proof
    fix a assume "a \<in> set (H st ! m)"
    moreover have "length (H st ! m) = m" using rows lH by simp
    ultimately obtain k where "k < m" "a = H st ! m ! k" by (auto simp: in_set_conv_nth)
    with zH [of m k] show "a = 0" by (simp add: mget_def)
  qed
  have len: "length (block (H st) m m) = length (take m (g st))"
    using lH lg by (simp add: blk)
  have "min_norm_lstsq (H st) (g st) m y"
    using min_norm_lstsq_snoc [OF len zrow, of "g st ! m" m y] mn Hs gs by simp
  with first show ?thesis by simp
qed

subsection \<open>Regular triangular systems\<close>

lemma dot_self_zero: "dot v v = 0 \<Longrightarrow> \<forall>a \<in> set v. a = 0"
proof (induction v)
  case Nil
  then show ?case by simp
next
  case (Cons a v)
  have "0 \<le> a * a" "0 \<le> dot v v" by (simp_all add: dot_self_nonneg)
  with Cons.prems have "a * a = 0" "dot v v = 0" by (simp_all add: add_nonneg_eq_0_iff)
  with Cons.IH show ?case by simp
qed

lemma residual_zero:
  assumes "lstsq_residual M r z = 0" and "length M = length r"
  shows "matvec M z = r"
proof -
  from assms(1) have "dot (vsub (matvec M z) r) (vsub (matvec M z) r) = 0"
    by (simp add: lstsq_residual_def norm2_def dot_self_nonneg)
  then have z: "\<forall>a \<in> set (vsub (matvec M z) r). a = 0" by (rule dot_self_zero)
  have l: "length (vsub (matvec M z) r) = length r"
    using assms(2) by (simp add: length_vsub length_matvec)
  show ?thesis
  proof (rule nth_equalityI)
    show "length (matvec M z) = length r" using assms(2) by (simp add: length_matvec)
  next
    fix i assume i: "i < length (matvec M z)"
    then have "i < length (vsub (matvec M z) r)" using l assms(2) by (simp add: length_matvec)
    then have "vsub (matvec M z) r ! i = 0" using z by (meson nth_mem)
    moreover have "vsub (matvec M z) r ! i = matvec M z ! i - r ! i"
      using i assms(2) by (simp add: vsub_def length_matvec)
    ultimately show "matvec M z ! i = r ! i" by simp
  qed
qed

lemma vsub_self: "vsub v v = map (\<lambda>a. 0) v"
  by (induction v) (simp_all add: vsub_def)

lemma residual_exact: "matvec M y = r \<Longrightarrow> lstsq_residual M r y = 0"
proof -
  assume "matvec M y = r"
  then have "vsub (matvec M y) r = map (\<lambda>a. 0) r"
    by (simp add: vsub_self)
  moreover have "dot (map (\<lambda>a. 0) r) (map (\<lambda>a. 0) r) = 0"
    by (rule dot_zero_left) simp
  ultimately show ?thesis by (simp add: lstsq_residual_def norm2_def)
qed

lemma upper_rows:
  assumes sh: "shape k k R" and up: "\<And>p q. p < k \<Longrightarrow> q < p \<Longrightarrow> mget R p q = 0"
    and lz: "length z = k" and p: "p < k"
  shows "dot (R ! p) z = R ! p ! p * z ! p + dot (drop (Suc p) (R ! p)) (drop (Suc p) z)"
proof -
  have lr: "length (R ! p) = k" using sh p by (simp add: shape_def)
  have "\<forall>a \<in> set (take p (R ! p)). a = 0"
  proof
    fix a assume "a \<in> set (take p (R ! p))"
    then obtain q where "q < p" "a = R ! p ! q"
      using lr p by (auto simp: in_set_conv_nth)
    with up [OF p] show "a = 0" by (simp add: mget_def)
  qed
  then have z: "dot (take p (R ! p)) (take p z) = 0" by (rule dot_zero_left)
  have "drop p (R ! p) = R ! p ! p # drop (Suc p) (R ! p)"
    using lr p by (simp add: Cons_nth_drop_Suc)
  moreover have "drop p z = z ! p # drop (Suc p) z"
    using lz p by (simp add: Cons_nth_drop_Suc)
  ultimately show ?thesis
    using z dot_split [of "R ! p" z p] by simp
qed

lemma upper_unique:
  assumes sh: "shape k k R" and up: "\<And>p q. p < k \<Longrightarrow> q < p \<Longrightarrow> mget R p q = 0"
    and nz: "\<And>p. p < k \<Longrightarrow> mget R p p \<noteq> 0"
    and ly: "length y = k" and lz: "length z = k"
    and eq: "matvec R y = matvec R z"
  shows "y = z"
proof -
  have row: "dot (R ! p) y = dot (R ! p) z" if "p < k" for p
  proof -
    from that sh have "p < length R" by (simp add: shape_def)
    then have "matvec R y ! p = dot (R ! p) y" "matvec R z ! p = dot (R ! p) z"
      by (simp_all add: matvec_def)
    with eq show ?thesis by simp
  qed
  have "drop (k - d) y = drop (k - d) z" if "d \<le> k" for d
    using that
  proof (induction d)
    case 0
    then show ?case using ly lz by simp
  next
    case (Suc d)
    define p where "p = k - Suc d"
    from Suc.prems have p: "p < k" and sp: "Suc p = k - d" by (simp_all add: p_def)
    from Suc have ih: "drop (Suc p) y = drop (Suc p) z" by (simp add: sp)
    have "dot (R ! p) y = R ! p ! p * y ! p + dot (drop (Suc p) (R ! p)) (drop (Suc p) y)"
      by (rule upper_rows [OF sh up ly p])
    moreover have "dot (R ! p) z = R ! p ! p * z ! p + dot (drop (Suc p) (R ! p)) (drop (Suc p) z)"
      by (rule upper_rows [OF sh up lz p])
    ultimately have "R ! p ! p * y ! p = R ! p ! p * z ! p"
      using row [OF p] ih by auto
    with nz [OF p] have "y ! p = z ! p" by (simp add: mget_def)
    moreover have "drop p y = y ! p # drop (Suc p) y" "drop p z = z ! p # drop (Suc p) z"
      using ly lz p by (simp_all add: Cons_nth_drop_Suc)
    ultimately have "drop p y = drop p z" using ih by simp
    then show ?case by (simp only: p_def)
  qed
  from this [of k] show ?thesis by simp
qed

lemma lstsq_regular_min_norm:
  assumes sh: "shape k k R" and lg: "length gs = k"
    and up: "\<And>p q. p < k \<Longrightarrow> q < p \<Longrightarrow> mget R p q = 0"
    and nz: "\<And>p. p < k \<Longrightarrow> mget R p p \<noteq> 0"
  shows "min_norm_lstsq R gs k (lstsq_regular R gs)"
proof -
  from nz have "\<not> (\<exists>p < k. mget R p p = 0)" by blast
  from linalg_solve_upper(2) [OF sh lg up this] obtain y where
    y: "linalg_solve R gs = Inr y" "length y = k" "matvec R y = gs" by blast
  then have yr: "lstsq_regular R gs = y" by (simp add: lstsq_regular_def)
  have lR: "length R = length gs" using sh lg by (simp add: shape_def)
  have r0: "lstsq_residual R gs y = 0" using y(3) by (rule residual_exact)
  have nn: "0 \<le> lstsq_residual R gs z" for z
    by (simp add: lstsq_residual_def norm2_def dot_self_nonneg)
  have min: "minimises R gs k y"
    unfolding minimises_def using y(2) r0 nn by simp
  have uniq: "norm2 y \<le> norm2 z" if "minimises R gs k z" for z
  proof -
    from that have lz: "length z = k" by (simp add: minimises_def)
    from that y(2) have "lstsq_residual R gs z \<le> lstsq_residual R gs y"
      unfolding minimises_def by blast
    with r0 nn [of z] have "lstsq_residual R gs z = 0" by simp
    then have "matvec R z = gs" using lR by (rule residual_zero)
    with y(3) have "matvec R z = matvec R y" by simp
    from upper_unique [OF sh up nz lz y(2) this] show ?thesis by simp
  qed
  show ?thesis
    unfolding min_norm_lstsq_def yr using min uniq by blast
qed

theorem exhausted_loop_lstsq_witness:
  "reaches (matvec [[3, 0], [4, 1]]) [1, 0] None (1 / 10 ^ 8) (Some 1) 1
     \<lparr>V = [[1, 0], [0, 1]], H = [[7 / 5], [0]], cs = [- 3 / 5], sn = [4 / 5],
        g = [- 3 / 5, - 4 / 5], resvec = [1, 4 / 5]\<rparr> \<and>
   int 1 = step_bound [1, 0] (Some 1) \<and>
   [- 3 / 7] = lstsq_regular (block (H \<lparr>V = [[1, 0], [0, 1]], H = [[7 / 5], [0]], cs = [- 3 / 5], sn = [4 / 5],
        g = [- 3 / 5, - 4 / 5], resvec = [1, 4 / 5]\<rparr>) 1 1)
       (take 1 (g \<lparr>V = [[1, 0], [0, 1]], H = [[7 / 5], [0]], cs = [- 3 / 5], sn = [4 / 5],
        g = [- 3 / 5, - 4 / 5], resvec = [1, 4 / 5]\<rparr>)) \<and>
   min_norm_lstsq (block (H \<lparr>V = [[1, 0], [0, 1]], H = [[7 / 5], [0]], cs = [- 3 / 5], sn = [4 / 5],
        g = [- 3 / 5, - 4 / 5], resvec = [1, 4 / 5]\<rparr>) 1 1)
     (take 1 (g \<lparr>V = [[1, 0], [0, 1]], H = [[7 / 5], [0]], cs = [- 3 / 5], sn = [4 / 5],
        g = [- 3 / 5, - 4 / 5], resvec = [1, 4 / 5]\<rparr>)) 1 [- 3 / 7] \<and>
   gmres lstsq_regular (matvec [[3, 0], [4, 1]]) [1, 0] None (1 / 10 ^ 8) (Some 1)
     = Inr (vadd (start_guess [1, 0] None)
              (matvec (cols_upto (V \<lparr>V = [[1, 0], [0, 1]], H = [[7 / 5], [0]], cs = [- 3 / 5], sn = [4 / 5],
        g = [- 3 / 5, - 4 / 5], resvec = [1, 4 / 5]\<rparr>) 1) [- 3 / 7]),
            resvec \<lparr>V = [[1, 0], [0, 1]], H = [[7 / 5], [0]], cs = [- 3 / 5], sn = [4 / 5],
        g = [- 3 / 5, - 4 / 5], resvec = [1, 4 / 5]\<rparr>) \<and>
   min_norm_lstsq (H \<lparr>V = [[1, 0], [0, 1]], H = [[7 / 5], [0]], cs = [- 3 / 5], sn = [4 / 5],
        g = [- 3 / 5, - 4 / 5], resvec = [1, 4 / 5]\<rparr>)
     (g \<lparr>V = [[1, 0], [0, 1]], H = [[7 / 5], [0]], cs = [- 3 / 5], sn = [4 / 5],
        g = [- 3 / 5, - 4 / 5], resvec = [1, 4 / 5]\<rparr>) 1 [- 3 / 7]"
proof -
  have r: "reaches (matvec [[3, 0], [4, 1]]) [1, 0] None (1 / 10 ^ 8) (Some 1) 1
     \<lparr>V = [[1, 0], [0, 1]], H = [[7 / 5], [0]], cs = [- 3 / 5], sn = [4 / 5],
        g = [- 3 / 5, - 4 / 5], resvec = [1, 4 / 5]\<rparr>"
    by (simp add: reach_defs run_defs vec_defs upt_rec Let_def sqrt_values eval_nat_numeral)
  have m: "int 1 = step_bound [1, 0] (Some 1)"
    by (simp add: step_bound_def)
  have y: "[- 3 / 7] = lstsq_regular (block (H \<lparr>V = [[1, 0], [0, 1]], H = [[7 / 5], [0]], cs = [- 3 / 5], sn = [4 / 5],
        g = [- 3 / 5, - 4 / 5], resvec = [1, 4 / 5]\<rparr>) 1 1)
       (take 1 (g \<lparr>V = [[1, 0], [0, 1]], H = [[7 / 5], [0]], cs = [- 3 / 5], sn = [4 / 5],
        g = [- 3 / 5, - 4 / 5], resvec = [1, 4 / 5]\<rparr>))"
    by (simp add: run_defs vec_defs)
  have "min_norm_lstsq [[7 / 5]] [- 3 / 5] 1 (lstsq_regular [[7 / 5]] [- 3 / 5])"
    by (rule lstsq_regular_min_norm) (simp_all add: shape_def mget_def)
  moreover have "lstsq_regular [[7 / 5]] [- 3 / 5] = [- 3 / 7]"
    by (simp add: run_defs vec_defs)
  ultimately have mn: "min_norm_lstsq (block (H \<lparr>V = [[1, 0], [0, 1]], H = [[7 / 5], [0]], cs = [- 3 / 5], sn = [4 / 5],
        g = [- 3 / 5, - 4 / 5], resvec = [1, 4 / 5]\<rparr>) 1 1)
     (take 1 (g \<lparr>V = [[1, 0], [0, 1]], H = [[7 / 5], [0]], cs = [- 3 / 5], sn = [4 / 5],
        g = [- 3 / 5, - 4 / 5], resvec = [1, 4 / 5]\<rparr>)) 1 [- 3 / 7]"
    by (simp add: vec_defs)
  from r m y mn exhausted_loop_lstsq [where lstsq = lstsq_regular, OF r m y mn] show ?thesis
    by blast
qed

section \<open>Breakdown of the basis\<close>

text \<open>
  C3. The claim: whenever an Arnoldi step \<open>j\<close> produces \<open>\<parallel>w\<parallel> = 0\<close>, \<open>gmres\<close> divides by no
  zero, leaves column \<open>j + 1\<close> of \<open>V\<close> unset, and returns without raising a solution formed
  from the first \<open>j + 1\<close> columns, the exact solution of the system. As stated it fails: for
  the operator \<open>0\<close> of size 1 and \<open>b = [1]\<close> the first step breaks down, and the triangular
  solve raises \<^verbatim>\<open>LinAlgError\<close> (no solution of the system exists).
\<close>

theorem breakdown_singular_raises:
  "reaches (matvec [[0]]) [1] None (1 / 10 ^ 8) None 0 (init_state 1 1 [1] 1) \<and>
   (case arnoldi (matvec [[0]]) 1 0 (init_state 1 1 [1] 1) of
      Inl e \<Rightarrow> False
    | Inr st1 \<Rightarrow> mget (H st1) 1 0 = 0 \<and> V st1 = V (init_state 1 1 [1] 1)) \<and>
   gmres lstsq_regular (matvec [[0]]) [1] None (1 / 10 ^ 8) None = Inl LinAlgError"
  by (simp add: reach_defs run_defs vec_defs upt_rec Let_def)


text \<open>What a step with \<open>\<parallel>w\<parallel> = 0\<close> does.\<close>

lemma breakdown_step:
  assumes r: "reaches A b x0 tol maxiter j st" and jm: "int j < step_bound b maxiter"
    and a: "arnoldi A (length b) j st = Inr st1" and brk: "mget (H st1) (j + 1) j = 0"
    and tol: "0 \<le> tol"
  shows "V st1 = V st \<and> col (V st1) (j + 1) = zeros (length b) \<and>
     (let st2 = givens_update j st1;
          R = block (H st2) (j + 1) (j + 1);
          rhs = take (j + 1) (g st2)
      in resvec st2 = resvec st @ [0] \<and>
         (if \<exists>i \<le> j. mget R i i = 0 then gmres lstsq A b x0 tol maxiter = Inl LinAlgError
          else \<exists>y. length y = j + 1 \<and> matvec R y = rhs \<and>
                 gmres lstsq A b x0 tol maxiter
                   = Inr (vadd (start_guess b x0) (matvec (cols_upto (V st1) (j + 1)) y),
                          resvec st @ [0])))"
proof -
  let ?n = "length b" and ?m = "nat (step_bound b maxiter)" and ?x = "start_guess b x0"
  define st2 where "st2 = givens_update j st1"
  define R where "R = block (H st2) (j + 1) (j + 1)"
  define rhs where "rhs = take (j + 1) (g st2)"
  from jm have j: "j < ?m" by simp
  note inv = reaches_inv [OF r]
  from inv have sV: "shape ?n (?m + 1) (V st)" and sH: "shape (?m + 1) ?m (H st)"
    and lg: "length (g st) = ?m + 1"
    and zg: "\<And>k. j < k \<Longrightarrow> k \<le> ?m \<Longrightarrow> g st ! k = 0"
    and zV: "\<And>k. j < k \<Longrightarrow> k \<le> ?m \<Longrightarrow> col (V st) k = zeros ?n"
    by (simp_all add: loop_inv_def)
  note ap = arnoldi_props [OF sV sH j a]
  have lg1: "length (g st1) = ?m + 1" using ap(5) lg by simp
  note gp = givens_update_props [OF ap(2) j lg1]
  have V1: "V st1 = V st" using ap(9) brk by simp
  have col: "col (V st1) (j + 1) = zeros ?n" using V1 zV [of "j + 1"] j by simp
  have g2: "g st2 = g st" using gp(9) brk ap(5) by (simp add: st2_def)
  have g0: "g st2 ! (j + 1) = 0" using g2 zg [of "j + 1"] j by simp
  have res: "resvec st2 = resvec st @ [0]"
    using givens_update_resvec [of j st1] g0 ap(6) by (simp add: st2_def)
  have step: "gmres_step A ?n tol ?x j st =
      (case linalg_solve R rhs of
         Inl e \<Rightarrow> Raise e
       | Inr y \<Rightarrow> Return (vadd ?x (matvec (cols_upto (V st1) (j + 1)) y), resvec st @ [0]))"
    using a g0 tol res gp(1)
    by (simp add: gmres_step_def Let_def st2_def [symmetric] R_def rhs_def split: sum.splits)
  have upt: "[j..<?m] = j # [Suc j..<?m]" using j by (simp add: upt_conv_Cons)
  have gm: "gmres lstsq A b x0 tol maxiter =
      (case linalg_solve R rhs of
         Inl e \<Rightarrow> Inl e
       | Inr y \<Rightarrow> Inr (vadd ?x (matvec (cols_upto (V st1) (j + 1)) y), resvec st @ [0]))"
    unfolding gmres_from [OF r] Let_def upt by (simp add: step split: sum.splits)
  have inv2: "loop_inv ?n ?m (Suc j) st2"
    unfolding st2_def by (rule step_inv [OF inv j a])
  then have sH2: "shape (?m + 1) ?m (H st2)" and lg2: "length (g st2) = ?m + 1"
    and zH2: "\<And>i k. i \<le> ?m \<Longrightarrow> k < ?m \<Longrightarrow> k < i \<Longrightarrow> mget (H st2) i k = 0"
    by (simp_all add: loop_inv_def)
  have sR: "shape (j + 1) (j + 1) R"
    unfolding R_def using sH2 j by (intro shape_block [OF sH2]) simp_all
  have lr: "length rhs = j + 1" using lg2 j by (simp add: rhs_def)
  have lH2: "j + 1 \<le> length (H st2)" using sH2 j by (simp add: shape_def)
  have up: "mget R p q = 0" if "p < j + 1" "q < p" for p q
  proof -
    from that have "mget R p q = mget (H st2) p q"
      unfolding R_def using lH2 by (intro mget_block) simp_all
    with that j zH2 [of p q] show ?thesis by simp
  qed
  note ls = linalg_solve_upper [OF sR lr up]
  have ex: "(\<exists>i \<le> j. mget R i i = 0) \<longleftrightarrow> (\<exists>p < j + 1. mget R p p = 0)"
    by (simp add: less_Suc_eq_le)
  have "if \<exists>i \<le> j. mget R i i = 0 then gmres lstsq A b x0 tol maxiter = Inl LinAlgError
        else \<exists>y. length y = j + 1 \<and> matvec R y = rhs \<and>
               gmres lstsq A b x0 tol maxiter
                 = Inr (vadd ?x (matvec (cols_upto (V st1) (j + 1)) y), resvec st @ [0])"
  proof (cases "\<exists>i \<le> j. mget R i i = 0")
    case True
    with ls(1) ex have "linalg_solve R rhs = Inl LinAlgError" by blast
    with True gm show ?thesis by simp
  next
    case False
    with ls(2) ex obtain y where "linalg_solve R rhs = Inr y" "length y = j + 1" "matvec R y = rhs"
      by blast
    with False gm show ?thesis by auto
  qed
  with V1 col res show ?thesis
    unfolding Let_def st2_def [symmetric] R_def [symmetric] rhs_def [symmetric] by blast
qed


subsection \<open>A breakdown at the first step\<close>

lemma dot_vadd_right:
  "length u = length v \<Longrightarrow> dot row (vadd u v) = dot row u + dot row v"
proof (induction row arbitrary: u v)
  case Nil
  then show ?case by simp
next
  case (Cons a row)
  then show ?case
    by (cases u; cases v) (simp_all add: vadd_def dot_def algebra_simps)
qed

lemma dot_scal_right: "dot row (scal c v) = c * dot row v"
proof (induction row arbitrary: v)
  case Nil
  then show ?case by simp
next
  case (Cons a row)
  then show ?case
    by (cases v) (simp_all add: scal_def dot_def algebra_simps)
qed

lemma vadd_maps: "vadd (map f xs) (map h xs) = map (\<lambda>a. f a + h a) xs"
  by (induction xs) (simp_all add: vadd_def)

lemma scal_map: "scal c (map f xs) = map (\<lambda>a. c * f a) xs"
  by (simp add: scal_def)

lemma matvec_linear: "linear_op n (matvec M)"
  unfolding linear_op_def matvec_def vadd_maps scal_map
  by (simp add: dot_vadd_right dot_scal_right)

lemma scal_scal: "scal c (scal d v) = scal (c * d) v"
  by (simp add: scal_def)

lemma scal_vdiv: "c \<noteq> 0 \<Longrightarrow> scal c (vdiv v c) = v"
  by (simp add: scal_def vdiv_def comp_def)

lemma vadd_vsub: "length u = length b \<Longrightarrow> vadd u (vsub b u) = b"
  by (auto simp: vadd_def vsub_def intro!: nth_equalityI)

lemma vsub_zero_eq:
  assumes "\<forall>a \<in> set (vsub u v). a = 0" and "length u = length v"
  shows "u = v"
proof (rule nth_equalityI)
  show "length u = length v" by fact
next
  fix i assume i: "i < length u"
  then have "i < length (vsub u v)" using assms(2) by (simp add: vsub_def)
  then have "vsub u v ! i \<in> set (vsub u v)" by (rule nth_mem)
  with assms(1) have "vsub u v ! i = 0" by blast
  with i assms(2) show "u ! i = v ! i" by (simp add: vsub_def)
qed

lemma norm2_zero: "norm2 v = 0 \<Longrightarrow> \<forall>a \<in> set v. a = 0"
  by (rule dot_self_zero) (simp add: norm2_def dot_self_nonneg)

lemma first_column: 
  assumes "shape n c M" and "0 < c"
  shows "matvec (cols_upto M 1) [a] = scal a (col M 0)"
proof -
  have "dot (take 1 row) [a] = a * row ! 0" if "row \<in> set M" for row
  proof -
    from that assms have "0 < length row" by (simp add: shape_def)
    then obtain r rs where "row = r # rs" by (cases row) auto
    then show ?thesis by simp
  qed
  then show ?thesis
    by (simp add: matvec_def cols_upto_def scal_def col_def)
qed

lemma givens_update_first_diag:
  assumes sh: "shape (m + 1) m (H st1)" and m: "0 < m" and brk: "mget (H st1) 1 0 = 0"
  shows "mget (H (givens_update 0 st1)) 0 0 = mget (H st1) 0 0"
proof -
  have ar: "apply_rotations (cs st1) (sn st1) 0 (H st1) = H st1"
    by (simp add: apply_rotations_def)
  have gr: "givens_rotation (mget (H st1) 0 0) (mget (H st1) (0 + 1) 0) = (1, 0)"
    using brk by (simp add: givens_rotation_zero)
  have H: "H (givens_update 0 st1)
      = mput (mput (H st1) 0 0 (1 * mget (H st1) 0 0 + 0 * mget (H st1) (0 + 1) 0)) (0 + 1) 0 0"
    unfolding givens_update_def Let_def ar gr by simp
  have s2: "shape (m + 1) m (mput (H st1) 0 0 (1 * mget (H st1) 0 0 + 0 * mget (H st1) (0 + 1) 0))"
    using sh by (rule shape_mput)
  show ?thesis
    unfolding H using m by (simp add: mget_mput_other mget_mput_shape [OF sh])
qed

lemma arnoldi_first_step:
  assumes sV: "shape n (m + 1) (V st)" and sH: "shape (m + 1) m (H st)" and m: "0 < m"
    and a: "arnoldi A n 0 st = Inr st1" and brk: "mget (H st1) 1 0 = 0"
  shows "A (col (V st) 0) = scal (mget (H st1) 0 0) (col (V st) 0)"
proof -
  let ?v = "col (V st) 0"
  from a obtain w0 where w0: "apply_op A n ?v = Inr w0"
    by (auto simp: arnoldi_def split: sum.splits)
  then have lw0: "length w0 = n" and Aw: "w0 = A ?v" using apply_op_length by blast+
  have lv: "length ?v = n" using sV by (simp add: length_col shape_def)
  define h0 where "h0 = dot ?v w0"
  define H1 where "H1 = mput (H st) 0 0 h0"
  define w where "w = vsub w0 (scal (mget H1 0 0) ?v)"
  have mg: "mgs (V st) 0 (H st, w0) = (H1, w)"
    by (simp add: mgs_def mgs_body_def Let_def H1_def h0_def w_def)
  have h1: "mget H1 0 0 = h0"
    unfolding H1_def using m by (simp add: mget_mput_shape [OF sH])
  have s1: "shape (m + 1) m H1" unfolding H1_def using sH by (rule shape_mput)
  define H2 where "H2 = mput H1 (0 + 1) 0 (norm2 w)"
  from a w0 mg have H: "H st1 = H2"
    by (auto simp: arnoldi_def Let_def H2_def)
  have "mget H2 1 0 = norm2 w"
    unfolding H2_def using m by (simp add: mget_mput_shape [OF s1])
  with brk H have "norm2 w = 0" by simp
  then have "\<forall>a \<in> set (vsub w0 (scal h0 ?v)). a = 0"
    unfolding w_def h1 by (rule norm2_zero)
  moreover have "length w0 = length (scal h0 ?v)" using lw0 lv by (simp add: length_scal)
  ultimately have "w0 = scal h0 ?v" by (rule vsub_zero_eq)
  moreover have "mget H2 0 0 = h0"
    unfolding H2_def using h1 by (simp add: mget_mput_other)
  ultimately show ?thesis using Aw H by simp
qed

lemma first_step_exact:
  assumes r: "reaches A b x0 tol maxiter 0 st" and jm: "0 < step_bound b maxiter"
    and a: "arnoldi A (length b) 0 st = Inr st1" and brk: "mget (H st1) 1 0 = 0"
    and tol: "0 \<le> tol" and lin: "linear_op (length b) A"
    and res: "gmres lstsq A b x0 tol maxiter = Inr (x', hist)"
  shows "A x' = b"
proof -
  let ?n = "length b" and ?m = "nat (step_bound b maxiter)" and ?x = "start_guess b x0"
  from jm have m: "0 < ?m" by simp
  from r obtain Ax where Ax: "apply_op A ?n ?x = Inr Ax" and nz: "norm2 (vsub b Ax) \<noteq> 0"
    and st: "st = init_state ?n ?m (vsub b Ax) (norm2 (vsub b Ax))"
    by (auto simp: reaches_def split: sum.splits)
  let ?r0 = "vsub b Ax" and ?beta = "norm2 (vsub b Ax)"
  let ?v = "vdiv ?r0 ?beta"
  from Ax have lx: "length ?x = ?n" and lAx: "length Ax = ?n" and AxA: "Ax = A ?x"
    by (auto simp: apply_op_def split: if_splits)
  have lr0: "length ?r0 = ?n" using lAx by (simp add: length_vsub)
  have lv: "length ?v = ?n" using lr0 by (simp add: vdiv_def)
  note inv = reaches_inv [OF r]
  from inv have sV: "shape ?n (?m + 1) (V st)" and sH: "shape (?m + 1) ?m (H st)"
    and lg: "length (g st) = ?m + 1"
    by (simp_all add: loop_inv_def)
  have c0: "col (V st) 0 = ?v"
    unfolding st init_state_def using lv
    by (simp add: col_set_col_same [OF shape_zeros2])
  have g0: "g st ! 0 = ?beta" by (simp add: st init_state_def zeros_def)
  have j: "(0 :: nat) < ?m" by (rule m)
  note ap = arnoldi_props [OF sV sH j a]
  have brk': "mget (H st1) (0 + 1) 0 = 0" using brk by simp
  have lg1: "length (g st1) = ?m + 1" using ap(5) lg by simp
  note gp = givens_update_props [OF ap(2) j lg1]
  define st2 where "st2 = givens_update 0 st1"
  have g2: "g st2 ! 0 = ?beta" using gp(9) [OF brk'] ap(5) g0 by (simp add: st2_def)
  have d2: "mget (H st2) 0 0 = mget (H st1) 0 0"
    unfolding st2_def by (rule givens_update_first_diag [OF ap(2) m brk])
  have Av: "A ?v = scal (mget (H st1) 0 0) ?v"
    using arnoldi_first_step [OF sV sH m a brk] c0 by simp
  have jm': "int 0 < step_bound b maxiter" using jm by simp
  from breakdown_step [OF r jm' a brk' tol, of lstsq] res
  obtain y where y: "length y = 0 + 1"
    "matvec (block (H st2) (0 + 1) (0 + 1)) y = take (0 + 1) (g st2)"
    "x' = vadd ?x (matvec (cols_upto (V st1) (0 + 1)) y)"
    unfolding Let_def st2_def [symmetric] by (auto split: if_splits)
  from y(1) obtain y0 where y0: "y = [y0]" by (cases y) auto
  have sH2: "shape (?m + 1) ?m (H st2)" unfolding st2_def by (rule gp(2))
  have lg2: "length (g st2) = ?m + 1" unfolding st2_def by (rule gp(5))
  obtain row rows where Hr: "H st2 = row # rows"
    using sH2 by (cases "H st2") (auto simp: shape_def)
  with sH2 m obtain e es where row: "row = e # es"
    by (cases row) (auto simp: shape_def)
  obtain ge gs where gr: "g st2 = ge # gs" using lg2 by (cases "g st2") auto
  from y(2) have "e * y0 = ge"
    by (simp add: y0 Hr row gr block_def matvec_def)
  moreover have "mget (H st2) 0 0 = e" by (simp add: Hr row mget_def)
  moreover have "g st2 ! 0 = ge" by (simp add: gr)
  ultimately have hy: "y0 * mget (H st1) 0 0 = ?beta" using d2 g2 by (simp add: mult.commute)
  have V1: "V st1 = V st" using ap(9) brk' by simp
  have "matvec (cols_upto (V st) 1) [y0] = scal y0 ?v"
    using first_column [OF sV, of y0] c0 by simp
  with y(3) V1 have x': "x' = vadd ?x (scal y0 ?v)" by (simp add: y0)
  have "A x' = vadd (A ?x) (A (scal y0 ?v))"
    unfolding x' using lin lx lv by (simp add: linear_op_def length_scal)
  also have "A (scal y0 ?v) = scal y0 (A ?v)"
    using lin lv by (simp add: linear_op_def)
  also have "\<dots> = scal ?beta ?v"
    unfolding Av scal_scal hy ..
  also have "\<dots> = ?r0" using nz by (rule scal_vdiv)
  also have "vadd (A ?x) ?r0 = b"
    unfolding AxA [symmetric] using lAx by (rule vadd_vsub)
  finally show ?thesis .
qed

text \<open>
  C3, amended. When step \<open>j\<close> produces \<open>\<parallel>w\<parallel> = 0\<close> and the tolerance is not negative:
  \<open>V\<close> is not written (no division by the zero norm; column \<open>j + 1\<close> stays the zero column
  it was allocated as), the step appends \<open>0\<close> to the history, and \<open>gmres\<close> leaves the loop
  at this step. It raises \<^verbatim>\<open>LinAlgError\<close> when the triangular matrix
  \<open>H[:j+1, :j+1]\<close> has a zero on its diagonal; otherwise it returns \<open>x0 + V[:, :j+1] y\<close>
  for the solution \<open>y\<close> of the triangular system, with the history that ends in \<open>0\<close>.
  When the breakdown is at the first step, \<open>j = 0\<close>, and the operator is linear, the vector
  returned solves \<open>A x = b\<close>. For a breakdown at a later step, whether it does is left
  open here.
\<close>

theorem breakdown_exit:
  assumes "reaches A b x0 tol maxiter j st" and "int j < step_bound b maxiter"
    and "arnoldi A (length b) j st = Inr st1" and "mget (H st1) (j + 1) j = 0"
    and "0 \<le> tol"
  shows "V st1 = V st \<and> col (V st1) (j + 1) = zeros (length b) \<and>
     (let st2 = givens_update j st1;
          R = block (H st2) (j + 1) (j + 1);
          rhs = take (j + 1) (g st2)
      in resvec st2 = resvec st @ [0] \<and>
         (if \<exists>i \<le> j. mget R i i = 0 then gmres lstsq A b x0 tol maxiter = Inl LinAlgError
          else \<exists>y. length y = j + 1 \<and> matvec R y = rhs \<and>
                 gmres lstsq A b x0 tol maxiter
                   = Inr (vadd (start_guess b x0) (matvec (cols_upto (V st1) (j + 1)) y),
                          resvec st @ [0]))) \<and>
     (j = 0 \<and> linear_op (length b) A \<longrightarrow>
        (case gmres lstsq A b x0 tol maxiter of
           Inl e \<Rightarrow> True
         | Inr (x', hist) \<Rightarrow> A x' = b))"
proof -
  have "A x' = b"
    if "j = 0" "linear_op (length b) A" "gmres lstsq A b x0 tol maxiter = Inr (x', hist)"
    for x' hist
  proof -
    from that(1) assms have "reaches A b x0 tol maxiter 0 st" "0 < step_bound b maxiter"
      "arnoldi A (length b) 0 st = Inr st1" "mget (H st1) 1 0 = 0"
      by simp_all
    from first_step_exact [OF this assms(5) that(2,3)] show ?thesis .
  qed
  then have "j = 0 \<and> linear_op (length b) A \<longrightarrow>
        (case gmres lstsq A b x0 tol maxiter of
           Inl e \<Rightarrow> True
         | Inr (x', hist) \<Rightarrow> A x' = b)"
    by (auto split: sum.splits)
  with breakdown_step [OF assms, of lstsq] show ?thesis
    by blast
qed

theorem breakdown_exit_witness:
  "reaches (matvec [[2, 0], [0, 2]]) [3, 4] None (1 / 10 ^ 8) None 0
     \<lparr>V = [[3 / 5, 0, 0], [4 / 5, 0, 0]], H = [[0, 0], [0, 0], [0, 0]], cs = [0, 0],
        sn = [0, 0], g = [5, 0, 0], resvec = [5]\<rparr> \<and>
   int 0 < step_bound [3, 4] None \<and>
   arnoldi (matvec [[2, 0], [0, 2]]) (length [3, 4 :: real]) 0
     \<lparr>V = [[3 / 5, 0, 0], [4 / 5, 0, 0]], H = [[0, 0], [0, 0], [0, 0]], cs = [0, 0],
        sn = [0, 0], g = [5, 0, 0], resvec = [5]\<rparr>
     = Inr \<lparr>V = [[3 / 5, 0, 0], [4 / 5, 0, 0]], H = [[2, 0], [0, 0], [0, 0]], cs = [0, 0],
        sn = [0, 0], g = [5, 0, 0], resvec = [5]\<rparr> \<and>
   mget (H \<lparr>V = [[3 / 5, 0, 0], [4 / 5, 0, 0]], H = [[2, 0], [0, 0], [0, 0]], cs = [0, 0],
        sn = [0, 0], g = [5, 0, 0], resvec = [5]\<rparr>) (0 + 1) 0 = 0 \<and>
   (0 :: real) \<le> 1 / 10 ^ 8 \<and>
   linear_op (length [3, 4 :: real]) (matvec [[2, 0], [0, 2]]) \<and>
   V \<lparr>V = [[3 / 5, 0, 0], [4 / 5, 0, 0]], H = [[2, 0], [0, 0], [0, 0]], cs = [0, 0],
        sn = [0, 0], g = [5, 0, 0], resvec = [5]\<rparr> = V \<lparr>V = [[3 / 5, 0, 0], [4 / 5, 0, 0]], H = [[0, 0], [0, 0], [0, 0]], cs = [0, 0],
        sn = [0, 0], g = [5, 0, 0], resvec = [5]\<rparr> \<and>
   col (V \<lparr>V = [[3 / 5, 0, 0], [4 / 5, 0, 0]], H = [[2, 0], [0, 0], [0, 0]], cs = [0, 0],
        sn = [0, 0], g = [5, 0, 0], resvec = [5]\<rparr>) (0 + 1) = zeros (length [3, 4 :: real]) \<and>
   (let st2 = givens_update 0 \<lparr>V = [[3 / 5, 0, 0], [4 / 5, 0, 0]], H = [[2, 0], [0, 0], [0, 0]], cs = [0, 0],
        sn = [0, 0], g = [5, 0, 0], resvec = [5]\<rparr>;
        R = block (H st2) (0 + 1) (0 + 1);
        rhs = take (0 + 1) (g st2)
    in resvec st2 = resvec \<lparr>V = [[3 / 5, 0, 0], [4 / 5, 0, 0]], H = [[0, 0], [0, 0], [0, 0]], cs = [0, 0],
        sn = [0, 0], g = [5, 0, 0], resvec = [5]\<rparr> @ [0] \<and>
       (if \<exists>i \<le> 0. mget R i i = 0
        then gmres lstsq_regular (matvec [[2, 0], [0, 2]]) [3, 4] None (1 / 10 ^ 8) None = Inl LinAlgError
        else \<exists>y. length y = 0 + 1 \<and> matvec R y = rhs \<and>
               gmres lstsq_regular (matvec [[2, 0], [0, 2]]) [3, 4] None (1 / 10 ^ 8) None
                 = Inr (vadd (start_guess [3, 4] None)
                          (matvec (cols_upto (V \<lparr>V = [[3 / 5, 0, 0], [4 / 5, 0, 0]], H = [[2, 0], [0, 0], [0, 0]], cs = [0, 0],
        sn = [0, 0], g = [5, 0, 0], resvec = [5]\<rparr>) (0 + 1)) y),
                        resvec \<lparr>V = [[3 / 5, 0, 0], [4 / 5, 0, 0]], H = [[0, 0], [0, 0], [0, 0]], cs = [0, 0],
        sn = [0, 0], g = [5, 0, 0], resvec = [5]\<rparr> @ [0]))) \<and>
   (case gmres lstsq_regular (matvec [[2, 0], [0, 2]]) [3, 4] None (1 / 10 ^ 8) None of
      Inl e \<Rightarrow> True
    | Inr (x', hist) \<Rightarrow> (matvec [[2, 0], [0, 2]]) x' = [3, 4])"
proof -
  have r: "reaches (matvec [[2, 0], [0, 2]]) [3, 4] None (1 / 10 ^ 8) None 0
     \<lparr>V = [[3 / 5, 0, 0], [4 / 5, 0, 0]], H = [[0, 0], [0, 0], [0, 0]], cs = [0, 0],
        sn = [0, 0], g = [5, 0, 0], resvec = [5]\<rparr>"
    by (simp add: reach_defs run_defs vec_defs upt_rec Let_def sqrt_values eval_nat_numeral)
  have j: "int 0 < step_bound [3, 4] None"
    by (simp add: step_bound_def)
  have a: "arnoldi (matvec [[2, 0], [0, 2]]) (length [3, 4 :: real]) 0
     \<lparr>V = [[3 / 5, 0, 0], [4 / 5, 0, 0]], H = [[0, 0], [0, 0], [0, 0]], cs = [0, 0],
        sn = [0, 0], g = [5, 0, 0], resvec = [5]\<rparr>
     = Inr \<lparr>V = [[3 / 5, 0, 0], [4 / 5, 0, 0]], H = [[2, 0], [0, 0], [0, 0]], cs = [0, 0],
        sn = [0, 0], g = [5, 0, 0], resvec = [5]\<rparr>"
    by (simp add: run_defs vec_defs upt_rec Let_def eval_nat_numeral)
  have b: "mget (H \<lparr>V = [[3 / 5, 0, 0], [4 / 5, 0, 0]], H = [[2, 0], [0, 0], [0, 0]], cs = [0, 0],
        sn = [0, 0], g = [5, 0, 0], resvec = [5]\<rparr>) (0 + 1) 0 = 0"
    by (simp add: vec_defs)
  have t: "(0 :: real) \<le> 1 / 10 ^ 8" by simp
  have l: "linear_op (length [3, 4 :: real]) (matvec [[2, 0], [0, 2]])"
    by (rule matvec_linear)
  from r j a b t l breakdown_exit [OF r j a b t, of lstsq_regular] show ?thesis
    by blast
qed

section \<open>The restart controller\<close>

text \<open>
  C6. With \<open>m\<close> the length of \<open>b\<close> and one cycle, the restarted solver returns what
  \<open>gmres\<close> returns with the bound \<open>maxiter\<close> the length of \<open>b\<close>: the same solution and
  history, or the same exception.
\<close>

theorem restart_one_cycle:
  "gmres_restart lstsq A b None (int (length b)) tol 1
     = gmres lstsq A b None tol (Some (int (length b)))"
proof (cases "gmres lstsq A b None tol (Some (int (length b)))")
  case (Inl e)
  then show ?thesis
    by (simp add: gmres_restart_def gmres_default_guess)
next
  case (Inr r)
  obtain x h where r: "r = (x, h)" by (cases r)
  with Inr have "h \<noteq> []" using gmres_history_nonempty by blast
  with Inr r show ?thesis
    by (simp add: gmres_restart_def gmres_default_guess)
qed

text \<open>
  C10. With no cycle allowed, the restarted solver returns the initial guess (the zero vector
  when none is given) and the empty history, for every operator: the inner solver is not
  called, and no entry of the history is compared with the tolerance.
\<close>

theorem restart_no_cycles:
  "gmres_restart lstsq A b x0 m tol 0
     = Inr (case x0 of None \<Rightarrow> zeros (length b) | Some v \<Rightarrow> v, [])"
  by (simp add: gmres_restart_def)

subsection \<open>The history of a restarted run\<close>

lemma joined_snoc:
  "joined (done @ [r]) = (if done = [] then snd r else joined done @ drop 1 (snd r))"
  by (cases "done") (simp_all add: joined_def)

lemma joined_Nil: "joined [] = []"
  by (simp add: joined_def)

lemma restart_loop_structure:
  assumes "restart_loop lstsq A b m tol [c..<N] x (joined done) = Inr (xf, hist)"
    and "length done = c" and "done \<noteq> [] \<longrightarrow> joined done \<noteq> []"
  shows "\<exists>rs. chained (\<lambda>x. gmres lstsq A b (Some x) tol (Some m)) x rs \<and>
           hist = joined (done @ rs) \<and> xf = last (x # map fst rs) \<and>
           (c \<le> N \<longrightarrow> c + length rs \<le> N) \<and>
           (\<forall>k. 0 < k \<and> k < length rs \<longrightarrow> \<not> last (joined (done @ take k rs)) \<le> tol) \<and>
           (c + length rs < N \<longrightarrow> rs \<noteq> [] \<and> last hist \<le> tol)"
  using assms
proof (induction "N - c" arbitrary: c "done" x)
  case 0
  then have "[c..<N] = []" by simp
  with "0.prems" have "xf = x" "hist = joined done" by simp_all
  then show ?case using 0 by (intro exI [of _ "[]"]) simp
next
  case (Suc d)
  let ?inner = "\<lambda>x. gmres lstsq A b (Some x) tol (Some m)"
  from Suc.hyps have cN: "c < N" by simp
  then have upt: "[c..<N] = c # [Suc c..<N]" by (simp add: upt_conv_Cons)
  from Suc.prems(1) obtain x' rvec where inner: "?inner x = Inr (x', rvec)"
    unfolding upt by (auto split: sum.splits)
  define done' where "done' = done @ [(x', rvec)]"
  have res: "(if c = 0 then joined done @ rvec else joined done @ drop 1 rvec) = joined done'"
    using Suc.prems(2) by (auto simp: done'_def joined_snoc joined_Nil)
  have ne: "joined done' \<noteq> []"
    using gmres_history_nonempty [OF inner] Suc.prems(3) by (auto simp: done'_def joined_snoc)
  show ?case
  proof (cases "last (joined done') \<le> tol")
    case True
    with Suc.prems(1) inner res ne have "xf = x'" "hist = joined done'"
      unfolding upt by (simp_all add: Let_def)
    then show ?thesis
      using inner True cN by (intro exI [of _ "[(x', rvec)]"]) (auto simp: done'_def)
  next
    case False
    with Suc.prems(1) inner res ne
    have rec: "restart_loop lstsq A b m tol [Suc c..<N] x' (joined done') = Inr (xf, hist)"
      unfolding upt by (simp add: Let_def)
    have len: "length done' = Suc c" using Suc.prems(2) by (simp add: done'_def)
    from Suc.hyps(2) have d: "d = N - Suc c" by simp
    from Suc.hyps(1) [OF d rec len] ne obtain rs where rs:
      "chained ?inner x' rs" "hist = joined (done' @ rs)" "xf = last (x' # map fst rs)"
      "Suc c \<le> N \<longrightarrow> Suc c + length rs \<le> N"
      "\<forall>k. 0 < k \<and> k < length rs \<longrightarrow> \<not> last (joined (done' @ take k rs)) \<le> tol"
      "Suc c + length rs < N \<longrightarrow> rs \<noteq> [] \<and> last hist \<le> tol"
      by blast
    have pre: "\<not> last (joined (done @ take k ((x', rvec) # rs))) \<le> tol"
      if "0 < k" "k < length ((x', rvec) # rs)" for k
    proof (cases k)
      case 0
      with that show ?thesis by simp
    next
      case (Suc k')
      show ?thesis
      proof (cases "k' = 0")
        case True
        then show ?thesis using False Suc by (simp add: done'_def)
      next
        case False
        then show ?thesis using rs(5) Suc that by (simp add: done'_def)
      qed
    qed
    show ?thesis
      using inner rs cN pre
      by (intro exI [of _ "(x', rvec) # rs"]) (auto simp: done'_def)
  qed
qed

lemma restart_history_structure:
  assumes "gmres_restart lstsq A b x0 m tol maxcycles = Inr (x, hist)" and "1 \<le> maxcycles"
  shows "\<exists>rs. rs \<noteq> [] \<and> int (length rs) \<le> maxcycles \<and>
           chained (\<lambda>x. gmres lstsq A b (Some x) tol (Some m))
             (case x0 of None \<Rightarrow> zeros (length b) | Some v \<Rightarrow> v) rs \<and>
           hist = joined rs \<and> x = fst (last rs) \<and>
           (\<forall>k. 0 < k \<and> k < length rs \<longrightarrow> \<not> last (joined (take k rs)) \<le> tol) \<and>
           (int (length rs) < maxcycles \<longrightarrow> last hist \<le> tol)"
proof -
  let ?x = "case x0 of None \<Rightarrow> zeros (length b) | Some v \<Rightarrow> v"
  from assms(1) have "restart_loop lstsq A b m tol [0..<nat maxcycles] ?x (joined []) = Inr (x, hist)"
    by (simp add: gmres_restart_def joined_Nil)
  from restart_loop_structure [OF this] obtain rs where rs:
    "chained (\<lambda>x. gmres lstsq A b (Some x) tol (Some m)) ?x rs"
    "hist = joined rs" "x = last (?x # map fst rs)" "length rs \<le> nat maxcycles"
    "\<forall>k. 0 < k \<and> k < length rs \<longrightarrow> \<not> last (joined (take k rs)) \<le> tol"
    "length rs < nat maxcycles \<longrightarrow> rs \<noteq> [] \<and> last hist \<le> tol"
    by auto
  have ne: "rs \<noteq> []"
  proof
    assume "rs = []"
    with rs(6) assms(2) show False by simp
  qed
  then have "x = fst (last rs)" using rs(3) by (simp add: last_map)
  with rs ne assms(2) show ?thesis
    by (intro exI [of _ rs]) auto
qed


text \<open>
  C8. The claim: the history of a restarted run is the whole history of cycle 0 followed by
  the histories of the later executed cycles without their first entries, each dropped entry
  being a duplicate of the last entry of the cycle before; and the controller stops after a
  cycle exactly when the last entry of the running history is at most \<open>tol\<close>. The
  concatenation and the stopping rule are \<open>restart_history_structure\<close> above. The dropped
  entry is not a duplicate: on the matrix with the rows \<open>[4, 2]\<close> and \<open>[- 3, - 3]\<close>,
  \<open>b = [1, 0]\<close>, \<open>m = 1\<close> and two cycles, cycle 0 ends with the history \<open>[1, 3/5]\<close>, and
  cycle 1, started from the solution of cycle 0, has the history \<open>[15/7, 15/7]\<close>: the entry
  \<open>15/7\<close> that the controller drops is the true residual norm there, not \<open>3/5\<close>.
\<close>

theorem restart_boundary_4_3:
  "gmres lstsq_regular (matvec [[4, 2], [- 3, - 3]]) [1, 0] (Some [0, 0]) (1 / 10 ^ 8) (Some 1)
     = Inr ([4 / 7, 0], [1, 3 / 5]) \<and>
   gmres lstsq_regular (matvec [[4, 2], [- 3, - 3]]) [1, 0] (Some [4 / 7, 0]) (1 / 10 ^ 8) (Some 1)
     = Inr ([4 / 7, 0], [15 / 7, 15 / 7]) \<and>
   gmres_restart lstsq_regular (matvec [[4, 2], [- 3, - 3]]) [1, 0] None 1 (1 / 10 ^ 8) 2
     = Inr ([4 / 7, 0], [1, 3 / 5, 15 / 7])"
  by (simp add: gmres_restart_def run_defs vec_defs upt_rec Let_def sqrt_values sqrt_225 eval_nat_numeral)

section \<open>The arrays of the caller are not changed\<close>

lemma frame_refl: "frame h h"
  by (simp add: frame_def)

lemma frame_trans: "frame h h1 \<Longrightarrow> frame h1 h2 \<Longrightarrow> frame h h2"
  by (auto simp: frame_def)

lemma alloc_frame: "alloc v h = (r, h') \<Longrightarrow> frame h h'"
  by (auto simp: alloc_def frame_def)

lemma alloc_fresh: "alloc v h = (r, h') \<Longrightarrow> r = next_ref h \<and> next_ref h' = Suc r \<and> rd h' r = v"
  by (auto simp: alloc_def rd_def)

lemma frame_rd: "frame h h' \<Longrightarrow> q < next_ref h \<Longrightarrow> rd h' q = rd h q"
  by (simp add: frame_def rd_def)

lemma first_alloc:
  assumes "(case x0_ref of None \<Rightarrow> alloc (zeros n) h | Some r \<Rightarrow> alloc (rd h r) h) = (x_ref, h1)"
  shows "frame h h1" and "x_ref = next_ref h" and "next_ref h1 = Suc x_ref"
    and "rd h1 x_ref = (case x0_ref of None \<Rightarrow> zeros n | Some r \<Rightarrow> rd h r)"
  using assms by (auto split: option.splits dest: alloc_frame alloc_fresh)

lemma gmres_ref_frame:
  assumes "gmres_ref lstsq A b_ref x0_ref tol maxiter h = (res, h')"
  shows "frame h h'"
proof -
  obtain x_ref h1 where a:
    "(case x0_ref of None \<Rightarrow> alloc (zeros (length (rd h b_ref))) h | Some r \<Rightarrow> alloc (rd h r) h)
       = (x_ref, h1)"
    by (cases "case x0_ref of None \<Rightarrow> alloc (zeros (length (rd h b_ref))) h | Some r \<Rightarrow> alloc (rd h r) h")
  note f1 = first_alloc(1) [OF a]
  from assms have "h' = h1 \<or> (\<exists>v r. alloc v h1 = (r, h'))"
    unfolding gmres_ref_def Let_def a
    by (auto split: sum.splits if_splits prod.splits)
  then show ?thesis
    using f1 frame_trans alloc_frame by blast
qed

lemma gmres_ref_fresh:
  assumes "gmres_ref lstsq A b_ref x0_ref tol maxiter h = (Inr (r, hist), h')"
  shows "next_ref h \<le> r \<and> r < next_ref h'"
proof -
  obtain x_ref h1 where a:
    "(case x0_ref of None \<Rightarrow> alloc (zeros (length (rd h b_ref))) h | Some r \<Rightarrow> alloc (rd h r) h)
       = (x_ref, h1)"
    by (cases "case x0_ref of None \<Rightarrow> alloc (zeros (length (rd h b_ref))) h | Some r \<Rightarrow> alloc (rd h r) h")
  note f = first_alloc [OF a]
  from assms have "(r = x_ref \<and> h' = h1) \<or> (\<exists>v. alloc v h1 = (r, h'))"
    unfolding gmres_ref_def Let_def a
    by (auto split: sum.splits if_splits prod.splits)
  then show ?thesis
    using f by (auto dest!: alloc_fresh)
qed

lemma gmres_ref_value:
  assumes "b_ref < next_ref h" and "\<forall>r \<in> set_option x0_ref. r < next_ref h"
    and "gmres_ref lstsq A b_ref x0_ref tol maxiter h = (res, h')"
  shows "read_result h' res = gmres lstsq A (rd h b_ref) (map_option (rd h) x0_ref) tol maxiter"
proof -
  let ?b = "rd h b_ref"
  let ?n = "length ?b"
  let ?x = "case map_option (rd h) x0_ref of None \<Rightarrow> zeros ?n | Some v \<Rightarrow> v"
  obtain x_ref h1 where a:
    "(case x0_ref of None \<Rightarrow> alloc (zeros ?n) h | Some r \<Rightarrow> alloc (rd h r) h) = (x_ref, h1)"
    by (cases "case x0_ref of None \<Rightarrow> alloc (zeros ?n) h | Some r \<Rightarrow> alloc (rd h r) h")
  note f = first_alloc [OF a]
  have b1: "rd h1 b_ref = ?b" using f(1) assms(1) by (rule frame_rd)
  have x1: "rd h1 x_ref = ?x" using f(4) by (cases x0_ref) simp_all
  have same: "gmres lstsq A ?b (Some ?x) tol maxiter = gmres lstsq A ?b (map_option (rd h) x0_ref) tol maxiter"
    by (cases x0_ref) (simp_all add: gmres_def)
  show ?thesis
  proof (cases "apply_op A ?n ?x")
    case (Inl e)
    with assms(3) have "res = Inl e"
      unfolding gmres_ref_def Let_def a by (simp add: b1 x1)
    moreover from Inl have "gmres lstsq A ?b (Some ?x) tol maxiter = Inl e"
      by (simp add: gmres_def)
    ultimately show ?thesis using same by (simp add: read_result_def)
  next
    case (Inr Ax)
    show ?thesis
    proof (cases "norm2 (vsub ?b Ax) = 0")
      case True
      with Inr assms(3) have "res = Inr (x_ref, [0])" "h' = h1"
        unfolding gmres_ref_def Let_def a by (simp_all add: b1 x1)
      moreover from Inr True have "gmres lstsq A ?b (Some ?x) tol maxiter = Inr (?x, [0])"
        by (simp add: gmres_def)
      ultimately show ?thesis using same x1 by (simp add: read_result_def)
    next
      case False
      show ?thesis
      proof (cases "gmres lstsq A ?b (Some ?x) tol maxiter")
        case (Inl e)
        with Inr False assms(3) have "res = Inl e"
          unfolding gmres_ref_def Let_def a by (simp add: b1 x1)
        with Inl same show ?thesis by (simp add: read_result_def)
      next
        case inner: (Inr p)
        obtain x' rvec where p: "p = (x', rvec)" by (cases p)
        obtain r h2 where al: "alloc x' h1 = (r, h2)" by (cases "alloc x' h1")
        from Inr False inner p al assms(3) have "res = Inr (r, rvec)" "h' = h2"
          unfolding gmres_ref_def Let_def a by (simp_all add: b1 x1)
        moreover have "rd h2 r = x'" using alloc_fresh [OF al] by blast
        ultimately show ?thesis using inner p same by (simp add: read_result_def)
      qed
    qed
  qed
qed

lemma restart_loop_ref_frame:
  "restart_loop_ref lstsq A b_ref m tol cycles x_ref residuals h = (res, h') \<Longrightarrow> frame h h'"
proof (induction cycles arbitrary: x_ref residuals h)
  case Nil
  then show ?case by (simp add: frame_refl)
next
  case (Cons cycle cycles)
  obtain res1 h1 where g: "gmres_ref lstsq A b_ref (Some x_ref) tol (Some m) h = (res1, h1)"
    by (cases "gmres_ref lstsq A b_ref (Some x_ref) tol (Some m) h")
  note f1 = gmres_ref_frame [OF g]
  from Cons.prems g have "h' = h1 \<or> (\<exists>x_ref' residuals'.
      restart_loop_ref lstsq A b_ref m tol cycles x_ref' residuals' h1 = (res, h'))"
    by (auto simp: Let_def split: sum.splits prod.splits if_splits)
  then show ?case
    using f1 Cons.IH frame_trans by blast
qed

lemma gmres_restart_ref_frame:
  assumes "gmres_restart_ref lstsq A b_ref x0_ref m tol maxcycles h = (res, h')"
  shows "frame h h'"
proof -
  obtain x_ref h1 where a:
    "(case x0_ref of None \<Rightarrow> alloc (zeros (length (rd h b_ref))) h | Some r \<Rightarrow> alloc (rd h r) h)
       = (x_ref, h1)"
    by (cases "case x0_ref of None \<Rightarrow> alloc (zeros (length (rd h b_ref))) h | Some r \<Rightarrow> alloc (rd h r) h")
  from assms have "restart_loop_ref lstsq A b_ref m tol [0..<nat maxcycles] x_ref [] h1 = (res, h')"
    unfolding gmres_restart_ref_def Let_def a by simp
  from restart_loop_ref_frame [OF this] first_alloc(1) [OF a] show ?thesis
    using frame_trans by blast
qed

lemma restart_loop_ref_value:
  assumes "b_ref < next_ref h" and "x_ref < next_ref h"
    and "restart_loop_ref lstsq A b_ref m tol cycles x_ref residuals h = (res, h')"
  shows "read_result h' res = restart_loop lstsq A (rd h b_ref) m tol cycles (rd h x_ref) residuals"
  using assms
proof (induction cycles arbitrary: x_ref residuals h)
  case Nil
  then show ?case by (auto simp: read_result_def)
next
  case (Cons cycle cycles)
  obtain res1 h1 where g: "gmres_ref lstsq A b_ref (Some x_ref) tol (Some m) h = (res1, h1)"
    by (cases "gmres_ref lstsq A b_ref (Some x_ref) tol (Some m) h")
  note f1 = gmres_ref_frame [OF g]
  have v: "read_result h1 res1 = gmres lstsq A (rd h b_ref) (Some (rd h x_ref)) tol (Some m)"
    using gmres_ref_value [OF Cons.prems(1) _ g] Cons.prems(2) by simp
  show ?case
  proof (cases res1)
    case (Inl e)
    with v have "gmres lstsq A (rd h b_ref) (Some (rd h x_ref)) tol (Some m) = Inl e"
      by (simp add: read_result_def)
    moreover from Inl g Cons.prems(3) have "res = Inl e" by simp
    ultimately show ?thesis by (simp add: read_result_def)
  next
    case (Inr p)
    obtain r rvec where p: "p = (r, rvec)" by (cases p)
    from v Inr p have inner: "gmres lstsq A (rd h b_ref) (Some (rd h x_ref)) tol (Some m) = Inr (rd h1 r, rvec)"
      by (simp add: read_result_def)
    define residuals' where "residuals' = (if cycle = 0 then residuals @ rvec else residuals @ drop 1 rvec)"
    have rb: "r < next_ref h1" using gmres_ref_fresh g Inr p by blast
    have bb: "b_ref < next_ref h1" using f1 Cons.prems(1) by (auto simp: frame_def)
    have b1: "rd h1 b_ref = rd h b_ref" using f1 Cons.prems(1) by (rule frame_rd)
    show ?thesis
    proof (cases "residuals' = [] \<or> last residuals' \<le> tol")
      case True
      with Cons.prems(3) g Inr p inner show ?thesis
        by (auto simp: Let_def residuals'_def read_result_def)
    next
      case False
      with Cons.prems(3) g Inr p
      have rec: "restart_loop_ref lstsq A b_ref m tol cycles r residuals' h1 = (res, h')"
        by (auto simp: Let_def residuals'_def)
      from Cons.IH [OF bb rb rec] b1 False inner show ?thesis
        by (auto simp: Let_def residuals'_def)
    qed
  qed
qed

lemma gmres_restart_ref_value:
  assumes "b_ref < next_ref h" and "\<forall>r \<in> set_option x0_ref. r < next_ref h"
    and "gmres_restart_ref lstsq A b_ref x0_ref m tol maxcycles h = (res, h')"
  shows "read_result h' res
           = gmres_restart lstsq A (rd h b_ref) (map_option (rd h) x0_ref) m tol maxcycles"
proof -
  obtain x_ref h1 where a:
    "(case x0_ref of None \<Rightarrow> alloc (zeros (length (rd h b_ref))) h | Some r \<Rightarrow> alloc (rd h r) h)
       = (x_ref, h1)"
    by (cases "case x0_ref of None \<Rightarrow> alloc (zeros (length (rd h b_ref))) h | Some r \<Rightarrow> alloc (rd h r) h")
  note f = first_alloc [OF a]
  from assms(3) have run: "restart_loop_ref lstsq A b_ref m tol [0..<nat maxcycles] x_ref [] h1 = (res, h')"
    unfolding gmres_restart_ref_def Let_def a by simp
  have bb: "b_ref < next_ref h1" using f(1) assms(1) by (auto simp: frame_def)
  have xb: "x_ref < next_ref h1" using f by simp
  have b1: "rd h1 b_ref = rd h b_ref" using f(1) assms(1) by (rule frame_rd)
  have x1: "rd h1 x_ref = (case map_option (rd h) x0_ref of None \<Rightarrow> zeros (length (rd h b_ref)) | Some v \<Rightarrow> v)"
    using f(4) by (cases x0_ref) simp_all
  from restart_loop_ref_value [OF bb xb run] show ?thesis
    by (simp add: gmres_restart_def b1 x1)
qed

text \<open>
  C9. Neither solver changes its arguments: when \<open>b\<close> and \<open>x0\<close> (if given) are arrays of
  the caller, each of them has after a call of \<open>gmres\<close> or of \<open>gmres_restart\<close> the contents
  it had before. (By \<open>gmres_ref_frame\<close> and \<open>gmres_restart_ref_frame\<close> this holds of every
  array that exists before the call; by \<open>gmres_ref_fresh\<close> the array returned is a new one;
  by \<open>gmres_ref_value\<close> and \<open>gmres_restart_ref_value\<close> the solvers on references compute what
  \<open>gmres\<close> and \<open>gmres_restart\<close> compute.)
\<close>

theorem solvers_keep_inputs:
  assumes "b_ref < next_ref h"
    and "case x0_ref of None \<Rightarrow> True | Some r \<Rightarrow> r < next_ref h"
    and "q = b_ref \<or> Some q = x0_ref"
  shows "rd (snd (gmres_ref lstsq A b_ref x0_ref tol maxiter h)) q = rd h q \<and>
         rd (snd (gmres_restart_ref lstsq A b_ref x0_ref m tol maxcycles h)) q = rd h q"
proof -
  from assms have q: "q < next_ref h" by (cases x0_ref) auto
  have "frame h (snd (gmres_ref lstsq A b_ref x0_ref tol maxiter h))"
    using gmres_ref_frame by (metis prod.collapse)
  moreover have "frame h (snd (gmres_restart_ref lstsq A b_ref x0_ref m tol maxcycles h))"
    using gmres_restart_ref_frame by (metis prod.collapse)
  ultimately show ?thesis using q by (simp add: frame_rd)
qed

theorem solvers_keep_inputs_witness:
  "(0 :: nat) < next_ref \<lparr>cells = [0 \<mapsto> [1, 0], 1 \<mapsto> [0, 0]], next_ref = 2\<rparr> \<and>
   (case Some (1 :: nat) of
      None \<Rightarrow> True
    | Some r \<Rightarrow> r < next_ref \<lparr>cells = [0 \<mapsto> [1, 0], 1 \<mapsto> [0, 0]], next_ref = 2\<rparr>) \<and>
   rd (snd (gmres_ref lstsq_regular (matvec [[3, 0], [4, 1]]) 0 (Some 1) (1 / 10 ^ 8) None
              \<lparr>cells = [0 \<mapsto> [1, 0], 1 \<mapsto> [0, 0]], next_ref = 2\<rparr>)) 1
     = rd \<lparr>cells = [0 \<mapsto> [1, 0], 1 \<mapsto> [0, 0]], next_ref = 2\<rparr> 1 \<and>
   rd (snd (gmres_restart_ref lstsq_regular (matvec [[3, 0], [4, 1]]) 0 (Some 1) 1 (1 / 10 ^ 8) 2
              \<lparr>cells = [0 \<mapsto> [1, 0], 1 \<mapsto> [0, 0]], next_ref = 2\<rparr>)) 1
     = rd \<lparr>cells = [0 \<mapsto> [1, 0], 1 \<mapsto> [0, 0]], next_ref = 2\<rparr> 1"
proof -
  let ?h = "\<lparr>cells = [0 \<mapsto> [1, 0 :: real], 1 \<mapsto> [0, 0]], next_ref = 2\<rparr>"
  have b: "(0 :: nat) < next_ref ?h" by simp
  have x: "case Some (1 :: nat) of None \<Rightarrow> True | Some r \<Rightarrow> r < next_ref ?h" by simp
  have q: "(1 :: nat) = 0 \<or> Some (1 :: nat) = Some 1" by simp
  from b x solvers_keep_inputs [OF b x q] show ?thesis
    by blast
qed

end
